theory Spec2Isabelle
  imports Main "HOL-Library.Word" "HOL-Library.Signed_Division" "HOL-Library.Log_Nat"
begin

unbundle bit_operations_syntax

section \<open>Shared types\<close>

type_synonym u8 = "8 word"
type_synonym u32 = "32 word"
type_synonym u64 = "64 word"

section \<open>Dual-gamepad variant\<close>

text \<open>
  The gamepad sketch keeps three global arrays (\<open>buttons\<close>, \<open>timers\<close>, \<open>states\<close>) and two
  \<open>GamepadInfo\<close> structs. One call of \<open>loop()\<close> reads the GPIO word and the clock once,
  debounces the 26 buttons, and sends a report for each gamepad that is marked.
\<close>

definition DEBOUNCE_MS :: u32 where
  "DEBOUNCE_MS = 8"

definition PICO_GPIO_MASK :: u32 where
  "PICO_GPIO_MASK = 0x1C7FFFFF"

definition PICO_GPIO_COUNT :: nat where
  "PICO_GPIO_COUNT = 26"

definition REPORT_ID_GAMEPAD_A :: nat where
  "REPORT_ID_GAMEPAD_A = 1"

definition buttons :: "nat list" where
  "buttons =
    [8, 10, 16, 14,
     12, 20, 18, 22, 24, 28,
     2, 4, 6,
     9, 11, 17, 15,
     13, 21, 19, 23, 26, 27,
     3, 5, 7]"

record GamepadInfo =
  buttonStates :: u32
  needToSend :: bool

record gp_state =
  gamepads :: "GamepadInfo list"
  timers :: "u32 list"
  states :: "u32 list"

text \<open>The globals as the declarations initialise them: every timer and state is 0, no
  gamepad is marked, and the (zero-initialised) report masks are 0.\<close>

definition gp_init :: gp_state where
  "gp_init =
    \<lparr>gamepads = replicate 2 \<lparr>buttonStates = 0, needToSend = False\<rparr>,
     timers = replicate 26 0,
     states = replicate 26 0\<rparr>"

text \<open>What one call of \<open>loop()\<close> reads from outside: the raw GPIO word
  (\<open>gpio_get_all\<close>), the microsecond clock (\<open>time_us_64\<close>), whether the USB bus is
  suspended, and the answers of the successive \<open>usb_hid.ready()\<close> polls.\<close>

record gp_env =
  gpio_all :: u32
  time_us :: u64
  suspended :: bool
  usb_ready :: "nat \<Rightarrow> bool"

text \<open>The local \<open>state\<close> of the first \<open>for\<close> loop:
  \<open>(gpio_now & (1ul << buttons[i])) ? 1 : 0\<close>.\<close>

definition button_level :: "u32 \<Rightarrow> nat \<Rightarrow> u32" where
  "button_level gpio_now i = (if gpio_now AND push_bit (buttons ! i) 1 \<noteq> 0 then 1 else 0)"

text \<open>Body of the first \<open>for\<close> loop, for button \<open>i\<close>.\<close>

definition debounce_button :: "u32 \<Rightarrow> u32 \<Rightarrow> nat \<Rightarrow> gp_state \<Rightarrow> gp_state" where
  "debounce_button gpio_now time_now i s =
    (if DEBOUNCE_MS < time_now - timers s ! i then
       (let state = button_level gpio_now i in
        if state \<noteq> states s ! i then
          (let g = (if i < 13 then 0 else 1 :: nat) in
           s\<lparr>states := (states s)[i := state],
             timers := (timers s)[i := time_now],
             gamepads := (gamepads s)[g := (gamepads s ! g)\<lparr>needToSend := True\<rparr>]\<rparr>)
        else s)
     else s)"

definition debounce_all :: "u32 \<Rightarrow> u32 \<Rightarrow> gp_state \<Rightarrow> gp_state" where
  "debounce_all gpio_now time_now s =
    fold (debounce_button gpio_now time_now) [0..<PICO_GPIO_COUNT] s"

text \<open>The inner \<open>for\<close> loop of the send phase: the mask starts at 0 and collects
  \<open>states[j] << (j - i*13)\<close> for the 13 buttons of gamepad \<open>i\<close>.\<close>

definition build_report :: "u32 list \<Rightarrow> nat \<Rightarrow> u32" where
  "build_report sts i =
    fold (\<lambda>j acc. acc OR push_bit (j - i * 13) (sts ! j)) [i * 13..<(i + 1) * 13] 0"

text \<open>\<open>while(!usb_hid.ready());\<close> polls until the transport answers ready. The poll
  counter is threaded so that the second gamepad continues where the first stopped. The
  loop has no bound in the source, so not returning is the value \<open>None\<close>.\<close>

partial_function (option) wait_ready :: "(nat \<Rightarrow> bool) \<Rightarrow> nat \<Rightarrow> nat option" where
  "wait_ready ready n = (if ready n then Some (Suc n) else wait_ready ready (Suc n))"

type_synonym report = "nat \<times> u32"

text \<open>Body of the second \<open>for\<close> loop, for gamepad \<open>i\<close>. The list collects the calls of
  \<open>usb_hid.sendReport\<close> as (report id, mask).\<close>

definition send_gamepad ::
  "(nat \<Rightarrow> bool) \<Rightarrow> nat \<Rightarrow> gp_state \<times> report list \<times> nat \<Rightarrow> (gp_state \<times> report list \<times> nat) option" where
  "send_gamepad ready i c =
    (case c of (s, sent, n) \<Rightarrow>
      if needToSend (gamepads s ! i) then
        (let m = build_report (states s) i;
             s1 = s\<lparr>gamepads := (gamepads s)[i := (gamepads s ! i)\<lparr>buttonStates := m\<rparr>]\<rparr>
         in case wait_ready ready n of
              None \<Rightarrow> None
            | Some n' \<Rightarrow>
                Some (s1\<lparr>gamepads := (gamepads s1)[i := (gamepads s1 ! i)\<lparr>needToSend := False\<rparr>]\<rparr>,
                      sent @ [(REPORT_ID_GAMEPAD_A + i, buttonStates (gamepads s1 ! i))],
                      n'))
      else Some (s, sent, n))"

datatype tick_result =
  Rebooted
  | Ticked gp_state bool "report list"

text \<open>One call of \<open>loop()\<close>. \<open>Rebooted\<close> is the wake-up branch that ends the program;
  \<open>Ticked s led sent\<close> carries the new globals, the LED level and the reports sent.\<close>

definition loop_gp :: "gp_env \<Rightarrow> gp_state \<Rightarrow> tick_result option" where
  "loop_gp e s =
    (let gpio_now = NOT (gpio_all e) AND PICO_GPIO_MASK;
         time_now = (ucast (time_us e div 1000) :: u32)
     in if suspended e \<and> gpio_now \<noteq> 0 then Some Rebooted
        else
          (let s1 = debounce_all gpio_now time_now s in
           case send_gamepad (usb_ready e) 0 (s1, [], 0) of
             None \<Rightarrow> None
           | Some c0 \<Rightarrow>
               (case send_gamepad (usb_ready e) 1 c0 of
                  None \<Rightarrow> None
                | Some (s2, sent, n) \<Rightarrow> Some (Ticked s2 (gpio_now \<noteq> 0) sent))))"

text \<open>The states the sketch can be in between two calls of \<open>loop()\<close>.\<close>

inductive reachable_gp :: "gp_state \<Rightarrow> bool" where
  reach_init: "reachable_gp gp_init"
| reach_tick: "reachable_gp s \<Longrightarrow> loop_gp e s = Some (Ticked s' led sent) \<Longrightarrow> reachable_gp s'"

text \<open>The two tests of the loop body taken together: the gate of button \<open>i\<close>.\<close>

definition gp_accepts :: "u32 \<Rightarrow> u32 \<Rightarrow> nat \<Rightarrow> gp_state \<Rightarrow> bool" where
  "gp_accepts gpio_now time_now i s \<longleftrightarrow>
     DEBOUNCE_MS < time_now - timers s ! i \<and> button_level gpio_now i \<noteq> states s ! i"

text \<open>What holds of the globals between two calls of \<open>loop()\<close>.\<close>

definition gp_inv :: "gp_state \<Rightarrow> bool" where
  "gp_inv s \<longleftrightarrow>
     length (gamepads s) = 2 \<and> length (timers s) = 26 \<and> length (states s) = 26 \<and>
     (\<forall>i<26. states s ! i = 0 \<or> states s ! i = 1) \<and>
     (\<forall>g<2. \<not> needToSend (gamepads s ! g) \<and>
             buttonStates (gamepads s ! g) = build_report (states s) g)"

text \<open>Some button of gamepad \<open>g\<close> has a different confirmed state in \<open>s'\<close>.\<close>

definition group_changed :: "gp_state \<Rightarrow> gp_state \<Rightarrow> nat \<Rightarrow> bool" where
  "group_changed s s' g \<longleftrightarrow> (\<exists>k<13. states s' ! (g * 13 + k) \<noteq> states s ! (g * 13 + k))"

text \<open>A sample tick: only the pin of button 0 (GPIO 8) reads low, 9 ms after start, the
  transport ready at once.\<close>

definition env_press0 :: gp_env where
  "env_press0 = \<lparr>gpio_all = 0xFFFFFEFF, time_us = 9000, suspended = False, usb_ready = (\<lambda>_. True)\<rparr>"

definition after_press0 :: gp_state where
  "after_press0 =
    \<lparr>gamepads = [\<lparr>buttonStates = 1, needToSend = False\<rparr>, \<lparr>buttonStates = 0, needToSend = False\<rparr>],
     timers = 9 # replicate 25 0,
     states = 1 # replicate 25 0\<rparr>"

declare wait_ready.simps [code]

section \<open>Keyboard variant, refactored sketch\<close>

text \<open>
  \<open>struct digitalInput\<close>. \<open>state\<close> holds the pin level: \<open>True\<close> is \<open>HIGH\<close> (released, the pins
  have pull-ups), \<open>False\<close> is \<open>LOW\<close> (pressed). The original sketch calls the timestamp
  field \<open>dbTime\<close>; both sketches use this record.
\<close>

record digitalInput =
  pin :: nat
  debTimestamp :: u32
  state :: bool
  btn :: u8
  btn_shift :: u8

text \<open>The calls \<open>Keyboard.press(k)\<close> and \<open>Keyboard.release(k)\<close>, in the order made.\<close>

datatype key_event = Press u8 | Release u8

record kb_state =
  inputs :: "digitalInput list"
  startBlock :: bool

definition SW_INPUTS :: nat where
  "SW_INPUTS = 26"

definition DEBOUNCE_TIME :: u32 where
  "DEBOUNCE_TIME = 10"

definition PULSE_COUNT :: nat where
  "PULSE_COUNT = 100"

text \<open>Key codes of \<open>Keyboard.h\<close> that the tables use, and \<open>KEY_SPACE\<close> of the sketch.\<close>

definition KEY_LEFT_CTRL :: u8 where "KEY_LEFT_CTRL = 0x80"
definition KEY_LEFT_SHIFT :: u8 where "KEY_LEFT_SHIFT = 0x81"
definition KEY_LEFT_ALT :: u8 where "KEY_LEFT_ALT = 0x82"
definition KEY_UP_ARROW :: u8 where "KEY_UP_ARROW = 0xDA"
definition KEY_DOWN_ARROW :: u8 where "KEY_DOWN_ARROW = 0xD9"
definition KEY_LEFT_ARROW :: u8 where "KEY_LEFT_ARROW = 0xD8"
definition KEY_RIGHT_ARROW :: u8 where "KEY_RIGHT_ARROW = 0xD7"
definition KEY_TAB :: u8 where "KEY_TAB = 0xB3"
definition KEY_RETURN :: u8 where "KEY_RETURN = 0xB0"
definition KEY_ESC :: u8 where "KEY_ESC = 0xB1"
definition KEY_F2 :: u8 where "KEY_F2 = 0xC3"
definition KEY_F11 :: u8 where "KEY_F11 = 0xCC"
definition KEY_SPACE :: u8 where "KEY_SPACE = 0x20"

definition mk_input :: "nat \<Rightarrow> u8 \<Rightarrow> u8 \<Rightarrow> digitalInput" where
  "mk_input p b bs = \<lparr>pin = p, debTimestamp = 0, state = True, btn = b, btn_shift = bs\<rparr>"

text \<open>The table \<open>inputs[SW_INPUTS]\<close> of the refactored sketch (characters by their ASCII
  codes). Entry 0 is the shift button.\<close>

definition inputs_table :: "digitalInput list" where
  "inputs_table =
    [mk_input 6 0x31 0x31,
     mk_input 7 0x32 KEY_ESC,
     mk_input 8 KEY_UP_ARROW KEY_UP_ARROW,
     mk_input 10 KEY_DOWN_ARROW KEY_DOWN_ARROW,
     mk_input 16 KEY_LEFT_ARROW KEY_LEFT_ARROW,
     mk_input 14 KEY_RIGHT_ARROW KEY_RIGHT_ARROW,
     mk_input 12 KEY_LEFT_CTRL KEY_TAB,
     mk_input 20 KEY_LEFT_ALT KEY_RETURN,
     mk_input 18 KEY_SPACE KEY_F11,
     mk_input 22 KEY_LEFT_SHIFT KEY_LEFT_SHIFT,
     mk_input 24 0x7A 0x7A,
     mk_input 27 0x78 0x78,
     mk_input 9 0x72 0x72,
     mk_input 11 0x66 0x66,
     mk_input 17 0x64 0x64,
     mk_input 15 0x67 0x67,
     mk_input 13 0x61 0x61,
     mk_input 21 0x73 0x73,
     mk_input 19 0x71 0x71,
     mk_input 23 0x77 0x77,
     mk_input 26 0x65 0x65,
     mk_input 28 0x79 0x79,
     mk_input 4 0x35 0x36,
     mk_input 5 0x36 0x36,
     mk_input 3 KEY_F2 KEY_F2,
     mk_input 2 0x39 0x39]"

definition kb_globals :: kb_state where
  "kb_globals = \<lparr>inputs = inputs_table, startBlock = False\<rparr>"

text \<open>
  \<open>(gpioStates & (1UL << pin)) != 0\<close>: the level of one pin in the word that
  \<open>gpio_get_all\<close> returns. (For a pin number of 32 or more the C shift is undefined; here
  the result is \<open>False\<close>. Every pin of the tables is below 29.)
\<close>

definition pin_level :: "u32 \<Rightarrow> nat \<Rightarrow> bool" where
  "pin_level gpioStates p \<longleftrightarrow> gpioStates AND push_bit p 1 \<noteq> 0"

text \<open>\<open>setup()\<close>: the \<open>i\<close>-th iteration stores the level that \<open>digitalRead\<close> returns for
  input \<open>i\<close>; \<open>rd i\<close> is that level. (The pin modes and the two output writes, LED low and
  disable pin high, do not touch these globals.)\<close>

definition setup_kb :: "(nat \<Rightarrow> bool) \<Rightarrow> kb_state \<Rightarrow> kb_state" where
  "setup_kb rd s =
    fold (\<lambda>i s. s\<lparr>inputs := (inputs s)[i := (inputs s ! i)\<lparr>state := rd i\<rparr>]\<rparr>) [0..<SW_INPUTS] s"

text \<open>\<open>handleShiftButton()\<close>, given the values that \<open>millis()\<close> and \<open>gpio_get_all()\<close>
  return. The result carries the key events issued.\<close>

definition handleShiftButton :: "u32 \<Rightarrow> u32 \<Rightarrow> kb_state \<Rightarrow> kb_state \<times> key_event list" where
  "handleShiftButton millisNow gpioStates s =
    (let buttonState = pin_level gpioStates (pin (inputs s ! 0)) in
     if state (inputs s ! 0) \<noteq> buttonState \<and>
        DEBOUNCE_TIME \<le> millisNow - debTimestamp (inputs s ! 0)
     then
       (let s1 = s\<lparr>inputs := (inputs s)[0 :=
                    (inputs s ! 0)\<lparr>state := buttonState, debTimestamp := millisNow\<rparr>]\<rparr>;
            shiftState = state (inputs s1 ! 0);
            out = (if \<not> startBlock s1 \<and> shiftState
                   then [Press (btn (inputs s1 ! 0)), Release (btn (inputs s1 ! 0))] else []);
            s2 = (if startBlock s1 \<and> shiftState then s1\<lparr>startBlock := False\<rparr> else s1)
        in (s2, out))
     else (s, []))"

text \<open>Body of the \<open>for\<close> loop of \<open>handleButtons()\<close>, for input \<open>i\<close>; the four \<open>if\<close>
  statements in the order of the source.\<close>

definition handleButton ::
  "u32 \<Rightarrow> u32 \<Rightarrow> nat \<Rightarrow> kb_state \<times> key_event list \<Rightarrow> kb_state \<times> key_event list" where
  "handleButton millisNow gpioStates i c =
    (case c of (s, out) \<Rightarrow>
      (let buttonState = pin_level gpioStates (pin (inputs s ! i));
           shiftState = state (inputs s ! 0)
       in if state (inputs s ! i) \<noteq> buttonState \<and>
             DEBOUNCE_TIME \<le> millisNow - debTimestamp (inputs s ! i)
          then
            (let s1 = s\<lparr>inputs := (inputs s)[i :=
                         (inputs s ! i)\<lparr>state := buttonState, debTimestamp := millisNow\<rparr>]\<rparr>;
                 out1 = (if shiftState \<and> \<not> buttonState
                         then out @ [Press (btn (inputs s1 ! i))] else out);
                 out2 = (if shiftState \<and> buttonState
                         then out1 @ [Release (btn (inputs s1 ! i))] else out1);
                 s2 = (if \<not> shiftState \<and> \<not> buttonState then s1\<lparr>startBlock := True\<rparr> else s1);
                 out3 = (if \<not> shiftState \<and> \<not> buttonState
                         then out2 @ [Press (btn_shift (inputs s2 ! i))] else out2);
                 out4 = (if \<not> shiftState \<and> buttonState
                         then out3 @ [Release (btn_shift (inputs s2 ! i))] else out3)
             in (s2, out4))
          else (s, out)))"

definition handleButtons :: "u32 \<Rightarrow> u32 \<Rightarrow> kb_state \<Rightarrow> kb_state \<times> key_event list" where
  "handleButtons millisNow gpioStates s =
    fold (handleButton millisNow gpioStates) [1..<SW_INPUTS] (s, [])"

section \<open>Keyboard variant, original sketch\<close>

definition debTime :: u32 where
  "debTime = 40"

text \<open>The table of the original sketch. Entry 0, which \<open>loop()\<close> passes as the shift
  input, is the coin switch of player 1.\<close>

definition inputs_table_orig :: "digitalInput list" where
  "inputs_table_orig =
    [mk_input 4 0x35 0x35,
     mk_input 5 0x36 0x36,
     mk_input 3 KEY_F2 KEY_F2,
     mk_input 2 0x39 0x39,
     mk_input 6 0x31 0x31,
     mk_input 7 0x32 0x32,
     mk_input 8 KEY_UP_ARROW KEY_UP_ARROW,
     mk_input 10 KEY_DOWN_ARROW KEY_DOWN_ARROW,
     mk_input 16 KEY_LEFT_ARROW KEY_LEFT_ARROW,
     mk_input 14 KEY_RIGHT_ARROW KEY_RIGHT_ARROW,
     mk_input 12 KEY_LEFT_CTRL KEY_LEFT_CTRL,
     mk_input 20 KEY_LEFT_ALT KEY_LEFT_ALT,
     mk_input 18 0x20 0x20,
     mk_input 22 KEY_LEFT_SHIFT KEY_LEFT_SHIFT,
     mk_input 24 0x7A 0x7A,
     mk_input 27 0x78 0x78,
     mk_input 9 0x72 0x72,
     mk_input 11 0x66 0x66,
     mk_input 17 0x64 0x64,
     mk_input 15 0x67 0x67,
     mk_input 13 0x61 0x61,
     mk_input 21 0x73 0x73,
     mk_input 19 0x71 0x71,
     mk_input 23 0x77 0x77,
     mk_input 26 0x65 0x65,
     mk_input 28 0x79 0x79]"

definition kb_globals_orig :: kb_state where
  "kb_globals_orig = \<lparr>inputs = inputs_table_orig, startBlock = False\<rparr>"

text \<open>
  One call of \<open>handleInput\<close> reads the clock and the pin twice: once in the condition
  and once more when it stores them. The four values are kept apart.
\<close>

record reads =
  gate_millis :: u32
  gate_level :: bool
  commit_millis :: u32
  commit_level :: bool

text \<open>\<open>setup()\<close> of the original sketch: iteration \<open>i\<close> stores the level read and the
  value of \<open>millis()\<close>.\<close>

definition setup_orig :: "(nat \<Rightarrow> bool \<times> u32) \<Rightarrow> kb_state \<Rightarrow> kb_state" where
  "setup_orig rd s =
    fold (\<lambda>i s. s\<lparr>inputs := (inputs s)[i :=
            (inputs s ! i)\<lparr>state := fst (rd i), debTimestamp := snd (rd i)\<rparr>]\<rparr>) [0..<SW_INPUTS] s"

text \<open>
  \<open>handleInput(&inputs[i], isShift)\<close>. The pointer is the array slot \<open>i\<close>, so the later
  read of \<open>inputs[0].state\<close> sees the store when \<open>i = 0\<close>.
\<close>

definition handleInput ::
  "reads \<Rightarrow> nat \<Rightarrow> bool \<Rightarrow> kb_state \<times> key_event list \<Rightarrow> kb_state \<times> key_event list" where
  "handleInput r i isShift c =
    (case c of (s, out) \<Rightarrow>
      if debTime < gate_millis r - debTimestamp (inputs s ! i) \<and>
         gate_level r \<noteq> state (inputs s ! i)
      then
        (let s1 = s\<lparr>inputs := (inputs s)[i := (inputs s ! i)\<lparr>debTimestamp := commit_millis r\<rparr>]\<rparr>;
             s2 = s1\<lparr>inputs := (inputs s1)[i := (inputs s1 ! i)\<lparr>state := commit_level r\<rparr>]\<rparr>;
             b = (if isShift \<or> state (inputs s2 ! 0) then btn (inputs s2 ! i)
                  else btn_shift (inputs s2 ! i));
             out1 = (if 32 < b
                     then out @ [if \<not> state (inputs s2 ! i) then Press b else Release b]
                     else out);
             s3 = s2\<lparr>startBlock := (if isShift \<and> \<not> state (inputs s2 ! i) then True
                                     else startBlock s2)\<rparr>;
             s4 = (if isShift \<and> state (inputs s3 ! i) \<and> startBlock s3
                   then s3\<lparr>startBlock := False\<rparr> else s3)
         in (s4, out1))
      else (s, out))"

definition loop_orig :: "(nat \<Rightarrow> reads) \<Rightarrow> kb_state \<Rightarrow> kb_state \<times> key_event list" where
  "loop_orig env s = fold (\<lambda>i. handleInput (env i) i (i = 0)) [0..<SW_INPUTS] (s, [])"

section \<open>Gates, runs of samples and sample states\<close>

text \<open>The gate of \<open>handleButtons()\<close> and \<open>handleShiftButton()\<close> for input \<open>i\<close>.\<close>

definition kb_accepts :: "u32 \<Rightarrow> u32 \<Rightarrow> nat \<Rightarrow> kb_state \<Rightarrow> bool" where
  "kb_accepts millisNow gpioStates i s \<longleftrightarrow>
     state (inputs s ! i) \<noteq> pin_level gpioStates (pin (inputs s ! i)) \<and>
     DEBOUNCE_TIME \<le> millisNow - debTimestamp (inputs s ! i)"

text \<open>The gate of \<open>handleInput\<close> for input \<open>i\<close>.\<close>

definition orig_accepts :: "reads \<Rightarrow> nat \<Rightarrow> kb_state \<Rightarrow> bool" where
  "orig_accepts r i s \<longleftrightarrow>
     debTime < gate_millis r - debTimestamp (inputs s ! i) \<and>
     gate_level r \<noteq> state (inputs s ! i)"

text \<open>The code of input \<open>i\<close> that goes with the level of the shift input: the primary
  code while the shift input is high (released), the shifted code while it is low.\<close>

definition resolved_code :: "kb_state \<Rightarrow> nat \<Rightarrow> u8" where
  "resolved_code s i =
     (if state (inputs s ! 0) then btn (inputs s ! i) else btn_shift (inputs s ! i))"

text \<open>Sample states: the globals after the respective \<open>setup()\<close> with every pin reading
  high (at clock value 0 in the original sketch).\<close>

definition kb_idle :: kb_state where
  "kb_idle = setup_kb (\<lambda>i. True) kb_globals"

definition orig_idle :: kb_state where
  "orig_idle = setup_orig (\<lambda>i. (True, 0)) kb_globals_orig"

definition reads_at :: "u32 \<Rightarrow> bool \<Rightarrow> reads" where
  "reads_at t l = \<lparr>gate_millis = t, gate_level = l, commit_millis = t, commit_level = l\<rparr>"

text \<open>
  Feeding a sequence of samples (clock value, GPIO word) to the debounce loop and
  counting the confirmed transitions of input \<open>i\<close>: the calls of \<open>handleButtons()\<close> in
  the refactored sketch, the first \<open>for\<close> loop of \<open>loop()\<close> in the gamepad sketch (there
  the GPIO word is the inverted, masked \<open>gpio_now\<close>).
\<close>

fun transitions_kb :: "nat \<Rightarrow> (u32 \<times> u32) list \<Rightarrow> kb_state \<Rightarrow> nat" where
  "transitions_kb i [] s = 0"
| "transitions_kb i ((millisNow, gpioStates) # xs) s =
     (let s' = fst (handleButtons millisNow gpioStates s)
      in (if state (inputs s' ! i) \<noteq> state (inputs s ! i) then 1 else 0) + transitions_kb i xs s')"

fun transitions_gp :: "nat \<Rightarrow> (u32 \<times> u32) list \<Rightarrow> gp_state \<Rightarrow> nat" where
  "transitions_gp i [] s = 0"
| "transitions_gp i ((time_now, gpio_now) # xs) s =
     (let s' = debounce_all gpio_now time_now s
      in (if states s' ! i \<noteq> states s ! i then 1 else 0) + transitions_gp i xs s')"

text \<open>The same for the shift button of the refactored sketch, fed to
  \<open>handleShiftButton()\<close>, and for input \<open>i\<close> of the original sketch, fed to \<open>handleInput\<close>
  as \<open>loop()\<close> calls it (each sample is the four values one call reads).\<close>

fun transitions_shift :: "(u32 \<times> u32) list \<Rightarrow> kb_state \<Rightarrow> nat" where
  "transitions_shift [] s = 0"
| "transitions_shift ((millisNow, gpioStates) # xs) s =
     (let s' = fst (handleShiftButton millisNow gpioStates s)
      in (if state (inputs s' ! 0) \<noteq> state (inputs s ! 0) then 1 else 0) + transitions_shift xs s')"

fun transitions_orig :: "nat \<Rightarrow> reads list \<Rightarrow> kb_state \<Rightarrow> nat" where
  "transitions_orig i [] s = 0"
| "transitions_orig i (r # rs) s =
     (let s' = fst (handleInput r i (i = 0) (s, []))
      in (if state (inputs s' ! i) \<noteq> state (inputs s ! i) then 1 else 0) + transitions_orig i rs s')"

text \<open>Sample runs for input 1 of the refactored sketch and button 0 of the gamepad
  sketch: bouncing within the first milliseconds, held low over 100 ms, and bouncing
  right after a confirmed press (at 10 ms and 9 ms).\<close>

definition bounce_kb :: "(u32 \<times> u32) list" where
  "bounce_kb = [(1, 0xFFFFFF7F), (2, 0xFFFFFFFF), (3, 0xFFFFFF7F), (4, 0xFFFFFF7F)]"

definition held_kb :: "(u32 \<times> u32) list" where
  "held_kb = [(20, 0xFFFFFF7F), (40, 0xFFFFFF7F), (80, 0xFFFFFF7F), (120, 0xFFFFFF7F)]"

definition bounce_gp :: "(u32 \<times> u32) list" where
  "bounce_gp = [(1, 0x100), (2, 0), (3, 0x100), (4, 0x100)]"

definition held_gp :: "(u32 \<times> u32) list" where
  "held_gp = [(20, 0x100), (40, 0x100), (80, 0x100), (120, 0x100)]"

definition late_kb :: "(u32 \<times> u32) list" where
  "late_kb = [(11, 0xFFFFFFFF), (12, 0xFFFFFF7F), (15, 0xFFFFFFFF)]"

definition late_gp :: "(u32 \<times> u32) list" where
  "late_gp = [(10, 0), (12, 0x100), (16, 0)]"

text \<open>Sample runs for the shift button of the refactored sketch (pin 6) and for entry 1
  of the original sketch, of the same three kinds (the confirmed press at 10 ms and at
  41 ms).\<close>

definition bounce_shift :: "(u32 \<times> u32) list" where
  "bounce_shift = [(1, 0xFFFFFFBF), (2, 0xFFFFFFFF), (3, 0xFFFFFFBF), (4, 0xFFFFFFBF)]"

definition held_shift :: "(u32 \<times> u32) list" where
  "held_shift = [(20, 0xFFFFFFBF), (40, 0xFFFFFFBF), (80, 0xFFFFFFBF), (120, 0xFFFFFFBF)]"

definition late_shift :: "(u32 \<times> u32) list" where
  "late_shift = [(11, 0xFFFFFFFF), (12, 0xFFFFFFBF), (15, 0xFFFFFFFF)]"

definition bounce_orig :: "reads list" where
  "bounce_orig = [reads_at 10 False, reads_at 20 True, reads_at 30 False, reads_at 39 False]"

definition held_orig :: "reads list" where
  "held_orig = [reads_at 50 False, reads_at 100 False, reads_at 150 False, reads_at 200 False]"

definition late_orig :: "reads list" where
  "late_orig = [reads_at 50 True, reads_at 60 False, reads_at 80 True]"

text \<open>Sample states of the original sketch: after \<open>setup()\<close> with only the pin of the shift
  input (entry 0) reading low, and with only the pin of entry 12 (code 32) reading low;
  and the idle state after a press of the shift input at 41 ms, followed by a press of
  entry 1 at 60 ms.\<close>

definition orig_held :: kb_state where
  "orig_held = setup_orig (\<lambda>i. (i \<noteq> 0, 0)) kb_globals_orig"

definition orig_b3_down :: kb_state where
  "orig_b3_down = setup_orig (\<lambda>i. (i \<noteq> 12, 0)) kb_globals_orig"

definition orig_shift_down :: kb_state where
  "orig_shift_down = fst (handleInput (reads_at 41 False) 0 True (orig_idle, []))"

definition orig_shift_action :: kb_state where
  "orig_shift_action = fst (handleInput (reads_at 60 False) 1 False (orig_shift_down, []))"

text \<open>Sample states of the refactored sketch: the idle state after a press of the shift
  button at 20 ms.\<close>

definition kb_shift_down :: kb_state where
  "kb_shift_down = fst (handleShiftButton 20 0xFFFFFFBF kb_idle)"

text \<open>Sample state of the refactored sketch: shift button held since 20 ms and entry 1
  pressed at 40 ms.\<close>

definition kb_shift_action :: kb_state where
  "kb_shift_action = fst (handleButton 40 0xFFFFFF3F 1 (kb_shift_down, []))"

text \<open>The same, after the shift button was released at 60 ms with entry 1 still held.\<close>

definition kb_shift_released :: kb_state where
  "kb_shift_released = fst (handleShiftButton 60 0xFFFFFF7F kb_shift_action)"

text \<open>Sample states: the keyboard sketches after \<open>setup()\<close> with only the pin of
  entry 1 reading low (the button held at power-up).\<close>

definition kb_b_held :: kb_state where
  "kb_b_held = setup_kb (\<lambda>i. i \<noteq> 1) kb_globals"

definition orig_b_held :: kb_state where
  "orig_b_held = setup_orig (\<lambda>i. (i \<noteq> 1, 0)) kb_globals_orig"

section \<open>Sync monitor, original sketch (threshold check)\<close>

definition HSyncPin :: nat where "HSyncPin = 0"

definition disablePin :: nat where "disablePin = 1"

definition ledPin :: nat where "ledPin = 25"

definition samples :: u32 where
  "samples = 100"

definition DEFAULT_FREQ :: u32 where
  "DEFAULT_FREQ = 55"

text \<open>
  The globals of \<open>freqBlock()\<close>. \<open>periodSum\<close> and \<open>sCounter\<close> are C \<open>int\<close>s: 32-bit words
  read as two's complement, compared with \<open><s\<close> and divided by \<open>int_div\<close> (C division,
  truncating towards zero).
\<close>

record sync_state =
  enableState :: bool
  prevEnState :: bool
  periodSum :: u32
  sCounter :: u32

definition sync_init :: sync_state where
  "sync_init = \<lparr>enableState = False, prevEnState = False, periodSum = 0, sCounter = 0\<rparr>"

definition int_div :: "u32 \<Rightarrow> u32 \<Rightarrow> u32" where
  "int_div a b = word_of_int (sint a sdiv sint b)"

text \<open>A call \<open>digitalWrite(pin, level)\<close>.\<close>

type_synonym pin_write = "nat \<times> bool"

text \<open>One call of \<open>freqBlock()\<close> of the original sketch, given the value \<open>pulseIn\<close>
  returns; the result carries the \<open>digitalWrite\<close> calls made.\<close>

definition freqBlock_orig :: "u32 \<Rightarrow> sync_state \<Rightarrow> sync_state \<times> pin_write list" where
  "freqBlock_orig periodIst s =
    (let s1 = s\<lparr>periodSum := periodSum s + periodIst\<rparr>;
         s2 = s1\<lparr>sCounter := sCounter s1 + 1\<rparr>
     in if samples <s sCounter s2 then
          (let periodAWG = int_div (periodSum s2) (sCounter s2);
               s3 = s2\<lparr>periodSum := 0\<rparr>;
               s4 = s3\<lparr>sCounter := 0\<rparr>;
               s5 = s4\<lparr>enableState := DEFAULT_FREQ <s periodAWG\<rparr>
           in if enableState s5 \<noteq> prevEnState s5 then
                (s5\<lparr>prevEnState := enableState s5\<rparr>,
                 [(disablePin, \<not> enableState s5), (ledPin, enableState s5)])
              else (s5, []))
        else (s2, []))"

text \<open>Successive calls, one per measured value, collecting the writes.\<close>

fun freqBlock_run :: "u32 list \<Rightarrow> sync_state \<Rightarrow> sync_state \<times> pin_write list" where
  "freqBlock_run [] s = (s, [])"
| "freqBlock_run (p # ps) s =
     (case freqBlock_orig p s of (s', w) \<Rightarrow>
        (case freqBlock_run ps s' of (s'', w') \<Rightarrow> (s'', w @ w')))"

section \<open>Sync monitor, refactored sketch (range check)\<close>

text \<open>
  Binary floating point as rationals. \<open>ilog2 x\<close> is the exponent of \<open>x > 0\<close>: the integer
  \<open>e\<close> with \<open>2 ^ e \<le> x < 2 ^ (e + 1)\<close>.
\<close>

definition ilog2 :: "rat \<Rightarrow> int" where
  "ilog2 x = (if 1 \<le> x then int (floorlog 2 (nat \<lfloor>x\<rfloor>)) - 1
              else - int (floorlog 2 (nat (\<lceil>1 / x\<rceil> - 1))))"

text \<open>Rounding to the nearest integer, ties to the even one.\<close>

definition round_half_even :: "rat \<Rightarrow> int" where
  "round_half_even q =
    (let f = \<lfloor>q\<rfloor>; d = q - of_int f
     in if d < 1 / 2 then f else if 1 / 2 < d then f + 1 else if even f then f else f + 1)"

text \<open>Rounding \<open>x > 0\<close> to nearest (ties to even) on a significand of \<open>p\<close> bits, any
  exponent.\<close>

definition round_to :: "nat \<Rightarrow> rat \<Rightarrow> rat" where
  "round_to p x =
    (if x \<le> 0 then 0
     else (let u = 2 powi (ilog2 x - int p + 1) in of_int (round_half_even (x / u)) * u))"

text \<open>The value of \<open>100000.0 / totalDuration\<close> stored in a \<open>float\<close>.\<close>

definition frequency_of :: "nat \<Rightarrow> rat" where
  "frequency_of totalDuration = round_to 24 (round_to 53 (100000 / of_nat totalDuration))"

text \<open>
  The \<open>for\<close> loop of \<open>freqBlock()\<close>: \<open>pulseIn k\<close> is the value the \<open>k\<close>-th call of
  \<open>pulseIn(HSyncPin, HIGH)\<close> returns in this cycle. The result is \<open>totalDuration\<close> (an
  \<open>unsigned long\<close>, 32 bits), \<open>hasNoPulse\<close>, and the number of calls made.
\<close>

fun pulse_loop :: "(nat \<Rightarrow> u32) \<Rightarrow> nat \<Rightarrow> nat \<Rightarrow> u32 \<Rightarrow> u32 \<times> bool \<times> nat" where
  "pulse_loop pulseIn 0 pulseCount totalDuration = (totalDuration, False, pulseCount)"
| "pulse_loop pulseIn (Suc n) pulseCount totalDuration =
     (let pulseDuration = pulseIn pulseCount;
          totalDuration' = totalDuration + pulseDuration
      in if pulseDuration = 0 then (totalDuration', True, Suc pulseCount)
         else pulse_loop pulseIn n (Suc pulseCount) totalDuration')"

text \<open>
  \<open>float frequency = 100000.0 / totalDuration\<close>: the quotient is formed in \<open>double\<close>
  (53-bit significand) and stored as \<open>float\<close> (24 bits), each time rounded to nearest,
  ties to even; a zero divisor gives plus infinity. The comparisons with 12.0 and 18.0
  are exact. (For a nonzero 32-bit divisor the quotient lies between \<open>2 ^ -16\<close> and
  \<open>2 ^ 17\<close>, inside the normal range of both formats.)
\<close>

datatype float_val = Finite rat | PlusInfinity

definition frequency :: "u32 \<Rightarrow> float_val" where
  "frequency totalDuration =
    (if totalDuration = 0 then PlusInfinity else Finite (frequency_of (unat totalDuration)))"

fun in_range :: "float_val \<Rightarrow> bool" where
  "in_range (Finite f) \<longleftrightarrow> 12 \<le> f \<and> f \<le> 18"
| "in_range PlusInfinity \<longleftrightarrow> False"

text \<open>One call of \<open>freqBlock()\<close> of the refactored sketch: the \<open>digitalWrite\<close> calls
  it makes.\<close>

definition freqBlock :: "(nat \<Rightarrow> u32) \<Rightarrow> pin_write list" where
  "freqBlock pulseIn =
    (case pulse_loop pulseIn PULSE_COUNT 0 0 of
       (totalDuration, hasNoPulse, calls) \<Rightarrow>
         if \<not> hasNoPulse then
           [(ledPin, in_range (frequency totalDuration)),
            (disablePin, \<not> in_range (frequency totalDuration))]
         else [(ledPin, False), (disablePin, True)])"

text \<open>What the specification calls the frequency of a cycle, in kHz: 1000 over the
  average of the \<open>PULSE_COUNT\<close> measured durations in microseconds.\<close>

definition spec_average_khz :: "(nat \<Rightarrow> u32) \<Rightarrow> rat" where
  "spec_average_khz pulseIn =
     1000 / (of_nat (\<Sum>k<PULSE_COUNT. unat (pulseIn k)) / of_nat PULSE_COUNT)"

section \<open>Properties\<close>

subsection \<open>Gamepad sketch: report masks\<close>

lemma fold_or_bit:
  "bit (fold (\<lambda>j acc. acc OR f j) js (acc :: u32)) n \<longleftrightarrow> bit acc n \<or> (\<exists>j\<in>set js. bit (f j) n)"
  by (induction js arbitrary: acc) (auto simp: bit_or_iff)

lemma bit_build_report_raw:
  "bit (build_report sts g) n \<longleftrightarrow> (\<exists>k<13. bit (push_bit k (sts ! (g * 13 + k))) n)"
proof -
  have "bit (build_report sts g) n \<longleftrightarrow> (\<exists>j\<in>{g * 13..<(g + 1) * 13}. bit (push_bit (j - g * 13) (sts ! j)) n)"
    by (simp add: build_report_def fold_or_bit)
  also have "\<dots> \<longleftrightarrow> (\<exists>k<13. bit (push_bit k (sts ! (g * 13 + k))) n)"
  proof
    assume "\<exists>j\<in>{g * 13..<(g + 1) * 13}. bit (push_bit (j - g * 13) (sts ! j)) n"
    then obtain j where j: "g * 13 \<le> j" "j < (g + 1) * 13" "bit (push_bit (j - g * 13) (sts ! j)) n"
      by auto
    then have "j - g * 13 < 13" "g * 13 + (j - g * 13) = j" by auto
    with j(3) show "\<exists>k<13. bit (push_bit k (sts ! (g * 13 + k))) n" by metis
  next
    assume "\<exists>k<13. bit (push_bit k (sts ! (g * 13 + k))) n"
    then obtain k where k: "k < 13" "bit (push_bit k (sts ! (g * 13 + k))) n" by auto
    then have "g * 13 + k \<in> {g * 13..<(g + 1) * 13}" by auto
    moreover have "bit (push_bit (g * 13 + k - g * 13) (sts ! (g * 13 + k))) n" using k by simp
    ultimately show "\<exists>j\<in>{g * 13..<(g + 1) * 13}. bit (push_bit (j - g * 13) (sts ! j)) n" by blast
  qed
  finally show ?thesis .
qed

lemma bit_push_bit_01:
  "x = 0 \<or> x = 1 \<Longrightarrow> k < 13 \<Longrightarrow> bit (push_bit k (x :: u32)) n \<longleftrightarrow> n = k \<and> x = 1"
  by (auto simp: bit_push_bit_iff bit_1_iff)

lemma bit_build_report:
  assumes "\<forall>k<13. sts ! (g * 13 + k) = 0 \<or> sts ! (g * 13 + k) = 1"
  shows "bit (build_report sts g) n \<longleftrightarrow> n < 13 \<and> sts ! (g * 13 + n) = 1"
proof
  assume "bit (build_report sts g) n"
  then obtain k where k: "k < 13" "bit (push_bit k (sts ! (g * 13 + k))) n"
    by (auto simp: bit_build_report_raw)
  with assms have "n = k \<and> sts ! (g * 13 + k) = 1" by (simp add: bit_push_bit_01)
  with k show "n < 13 \<and> sts ! (g * 13 + n) = 1" by simp
next
  assume n: "n < 13 \<and> sts ! (g * 13 + n) = 1"
  then have "bit (push_bit n (sts ! (g * 13 + n))) n"
    using bit_push_bit_01 [of "sts ! (g * 13 + n)" n n] by blast
  with n show "bit (build_report sts g) n" unfolding bit_build_report_raw by blast
qed

lemma build_report_cong:
  "(\<And>k. k < 13 \<Longrightarrow> sts ! (g * 13 + k) = sts' ! (g * 13 + k)) \<Longrightarrow> build_report sts g = build_report sts' g"
proof (rule bit_eqI)
  fix n
  assume eq: "\<And>k. k < 13 \<Longrightarrow> sts ! (g * 13 + k) = sts' ! (g * 13 + k)"
  then have "(\<exists>k<13. bit (push_bit k (sts ! (g * 13 + k))) n) \<longleftrightarrow>
             (\<exists>k<13. bit (push_bit k (sts' ! (g * 13 + k))) n)"
    by (simp cong: conj_cong)
  then show "bit (build_report sts g) n \<longleftrightarrow> bit (build_report sts' g) n"
    by (simp only: bit_build_report_raw)
qed

lemma debounce_button_eq:
  "debounce_button gpio_now time_now i s =
    (if gp_accepts gpio_now time_now i s then
       s\<lparr>states := (states s)[i := button_level gpio_now i],
         timers := (timers s)[i := time_now],
         gamepads := (gamepads s)[(if i < 13 then 0 else 1) :=
                        (gamepads s ! (if i < 13 then 0 else 1))\<lparr>needToSend := True\<rparr>]\<rparr>
     else s)"
  by (simp add: debounce_button_def gp_accepts_def Let_def)

lemma button_level_01: "button_level gpio_now i = 0 \<or> button_level gpio_now i = 1"
  by (simp add: button_level_def)

text \<open>Effect of a run of loop bodies on one slot.\<close>

lemma fold_debounce_lengths:
  "length (states (fold (debounce_button gn tn) js s)) = length (states s) \<and>
   length (timers (fold (debounce_button gn tn) js s)) = length (timers s) \<and>
   length (gamepads (fold (debounce_button gn tn) js s)) = length (gamepads s)"
  by (induction js arbitrary: s) (auto simp: debounce_button_eq)

lemma fold_debounce_slot:
  assumes "distinct js" "set js \<subseteq> {..<length (states s)}" "length (timers s) = length (states s)"
  shows "states (fold (debounce_button gn tn) js s) ! i =
           (if i \<in> set js \<and> gp_accepts gn tn i s then button_level gn i else states s ! i) \<and>
         timers (fold (debounce_button gn tn) js s) ! i =
           (if i \<in> set js \<and> gp_accepts gn tn i s then tn else timers s ! i)"
  using assms
proof (induction js arbitrary: s)
  case Nil
  then show ?case by simp
next
  case (Cons j js)
  let ?s1 = "debounce_button gn tn j s"
  have len: "length (states ?s1) = length (states s)" "length (timers ?s1) = length (timers s)"
    by (simp_all add: debounce_button_eq)
  have IH: "states (fold (debounce_button gn tn) js ?s1) ! i =
           (if i \<in> set js \<and> gp_accepts gn tn i ?s1 then button_level gn i else states ?s1 ! i) \<and>
         timers (fold (debounce_button gn tn) js ?s1) ! i =
           (if i \<in> set js \<and> gp_accepts gn tn i ?s1 then tn else timers ?s1 ! i)"
    using Cons.prems len by (intro Cons.IH) auto
  have j: "j < length (states s)" "j < length (timers s)" "j \<notin> set js" using Cons.prems by auto
  show ?case
  proof (cases "i = j")
    case True
    then have "i \<notin> set js" using j by simp
    with IH have "states (fold (debounce_button gn tn) js ?s1) ! i = states ?s1 ! i"
      "timers (fold (debounce_button gn tn) js ?s1) ! i = timers ?s1 ! i" by simp_all
    moreover have "states ?s1 ! j = (if gp_accepts gn tn j s then button_level gn j else states s ! j)"
      "timers ?s1 ! j = (if gp_accepts gn tn j s then tn else timers s ! j)"
      using j by (simp_all add: debounce_button_eq)
    ultimately show ?thesis using True by simp
  next
    case False
    then have "gp_accepts gn tn i ?s1 = gp_accepts gn tn i s"
      by (simp add: debounce_button_eq gp_accepts_def)
    moreover have "states ?s1 ! i = states s ! i" "timers ?s1 ! i = timers s ! i"
      using False by (simp_all add: debounce_button_eq)
    ultimately show ?thesis using IH False by simp
  qed
qed

lemma gp_accepts_changed:
  assumes "distinct js" "set js \<subseteq> {..<length (states s)}" "length (timers s) = length (states s)"
    "i \<in> set js"
  shows "gp_accepts gn tn i s \<longleftrightarrow> states (fold (debounce_button gn tn) js s) ! i \<noteq> states s ! i"
  using fold_debounce_slot [OF assms(1-3), of gn tn i] assms(4)
  by (auto simp: gp_accepts_def)

lemma fold_debounce_pad:
  assumes "distinct js" "set js \<subseteq> {..<length (states s)}" "length (timers s) = length (states s)"
    "length (gamepads s) = 2" "g < 2"
  shows "gamepads (fold (debounce_button gn tn) js s) ! g =
          (gamepads s ! g)\<lparr>needToSend := needToSend (gamepads s ! g) \<or>
             (\<exists>i\<in>set js. (i < 13 \<longleftrightarrow> g = 0) \<and> gp_accepts gn tn i s)\<rparr>"
  using assms
proof (induction js arbitrary: s)
  case Nil
  then show ?case by simp
next
  case (Cons j js)
  let ?s1 = "debounce_button gn tn j s"
  have len: "length (states ?s1) = length (states s)" "length (timers ?s1) = length (timers s)"
    "length (gamepads ?s1) = length (gamepads s)"
    by (simp_all add: debounce_button_eq)
  have IH: "gamepads (fold (debounce_button gn tn) js ?s1) ! g =
          (gamepads ?s1 ! g)\<lparr>needToSend := needToSend (gamepads ?s1 ! g) \<or>
             (\<exists>i\<in>set js. (i < 13 \<longleftrightarrow> g = 0) \<and> gp_accepts gn tn i ?s1)\<rparr>"
    using Cons.prems len by (intro Cons.IH) auto
  have "j \<notin> set js" using Cons.prems by simp
  have acc: "gp_accepts gn tn i ?s1 = gp_accepts gn tn i s" if "i \<in> set js" for i
  proof -
    from that \<open>j \<notin> set js\<close> have "i \<noteq> j" by blast
    then show ?thesis by (simp add: debounce_button_eq gp_accepts_def)
  qed
  have pad: "gamepads ?s1 ! g =
      (gamepads s ! g)\<lparr>needToSend := needToSend (gamepads s ! g) \<or> ((j < 13 \<longleftrightarrow> g = 0) \<and> gp_accepts gn tn j s)\<rparr>"
    using Cons.prems(4,5) by (auto simp: debounce_button_eq nth_list_update)
  have "(\<exists>i\<in>set js. (i < 13 \<longleftrightarrow> g = 0) \<and> gp_accepts gn tn i ?s1) \<longleftrightarrow>
        (\<exists>i\<in>set js. (i < 13 \<longleftrightarrow> g = 0) \<and> gp_accepts gn tn i s)"
    using acc by blast
  with IH pad show ?case by auto
qed

lemma debounce_all_slot:
  assumes "length (states s) = 26" "length (timers s) = 26" "i < 26"
  shows "states (debounce_all gn tn s) ! i =
           (if gp_accepts gn tn i s then button_level gn i else states s ! i)"
    and "timers (debounce_all gn tn s) ! i =
           (if gp_accepts gn tn i s then tn else timers s ! i)"
proof -
  have "set [0..<26] \<subseteq> {..<length (states s)}" using assms by auto
  then have *: "states (fold (debounce_button gn tn) [0..<26] s) ! i =
           (if i \<in> set [0..<26] \<and> gp_accepts gn tn i s then button_level gn i else states s ! i) \<and>
         timers (fold (debounce_button gn tn) [0..<26] s) ! i =
           (if i \<in> set [0..<26] \<and> gp_accepts gn tn i s then tn else timers s ! i)"
    using assms by (intro fold_debounce_slot) simp_all
  have i: "i \<in> set [0..<26]" using assms by simp
  show "states (debounce_all gn tn s) ! i =
           (if gp_accepts gn tn i s then button_level gn i else states s ! i)"
    using * i unfolding debounce_all_def PICO_GPIO_COUNT_def by presburger
  show "timers (debounce_all gn tn s) ! i =
           (if gp_accepts gn tn i s then tn else timers s ! i)"
    using * i unfolding debounce_all_def PICO_GPIO_COUNT_def by presburger
qed

lemma debounce_all_lengths:
  "length (states (debounce_all gn tn s)) = length (states s)"
  "length (timers (debounce_all gn tn s)) = length (timers s)"
  "length (gamepads (debounce_all gn tn s)) = length (gamepads s)"
  by (simp_all add: debounce_all_def fold_debounce_lengths)

lemma debounce_all_changed:
  assumes "length (states s) = 26" "length (timers s) = 26" "i < 26"
  shows "gp_accepts gn tn i s \<longleftrightarrow> states (debounce_all gn tn s) ! i \<noteq> states s ! i"
  using debounce_all_slot(1) [OF assms, of gn tn] by (auto simp: gp_accepts_def)

lemma debounce_all_pad:
  assumes "length (states s) = 26" "length (timers s) = 26" "length (gamepads s) = 2" "g < 2"
  shows "gamepads (debounce_all gn tn s) ! g =
          (gamepads s ! g)\<lparr>needToSend := needToSend (gamepads s ! g) \<or>
             (\<exists>k<13. states (debounce_all gn tn s) ! (g * 13 + k) \<noteq> states s ! (g * 13 + k))\<rparr>"
proof -
  have "(\<exists>i\<in>set [0..<26]. (i < 13 \<longleftrightarrow> g = 0) \<and> gp_accepts gn tn i s) \<longleftrightarrow>
        (\<exists>k<13. gp_accepts gn tn (g * 13 + k) s)"
  proof
    assume "\<exists>i\<in>set [0..<26]. (i < 13 \<longleftrightarrow> g = 0) \<and> gp_accepts gn tn i s"
    then obtain i where i: "i < 26" "i < 13 \<longleftrightarrow> g = 0" "gp_accepts gn tn i s" by auto
    with assms(4) have "i - g * 13 < 13" "g * 13 + (i - g * 13) = i" by auto
    with i(3) show "\<exists>k<13. gp_accepts gn tn (g * 13 + k) s" by metis
  next
    assume "\<exists>k<13. gp_accepts gn tn (g * 13 + k) s"
    then obtain k where k: "k < 13" "gp_accepts gn tn (g * 13 + k) s" by auto
    with assms(4) have "g * 13 + k \<in> set [0..<26]" "g * 13 + k < 13 \<longleftrightarrow> g = 0" by auto
    with k(2) show "\<exists>i\<in>set [0..<26]. (i < 13 \<longleftrightarrow> g = 0) \<and> gp_accepts gn tn i s" by blast
  qed
  also have "\<dots> \<longleftrightarrow> (\<exists>k<13. states (debounce_all gn tn s) ! (g * 13 + k) \<noteq> states s ! (g * 13 + k))"
  proof -
    have "\<And>k. k < 13 \<Longrightarrow> gp_accepts gn tn (g * 13 + k) s \<longleftrightarrow>
            states (debounce_all gn tn s) ! (g * 13 + k) \<noteq> states s ! (g * 13 + k)"
      using assms(4) by (intro debounce_all_changed assms(1,2)) auto
    then show ?thesis by (simp cong: conj_cong)
  qed
  finally have ex: "(\<exists>i\<in>set [0..<26]. (i < 13 \<longleftrightarrow> g = 0) \<and> gp_accepts gn tn i s) \<longleftrightarrow>
     (\<exists>k<13. states (debounce_all gn tn s) ! (g * 13 + k) \<noteq> states s ! (g * 13 + k))" .
  have "set [0..<26] \<subseteq> {..<length (states s)}" using assms by auto
  then have "gamepads (fold (debounce_button gn tn) [0..<26] s) ! g =
          (gamepads s ! g)\<lparr>needToSend := needToSend (gamepads s ! g) \<or>
             (\<exists>i\<in>set [0..<26]. (i < 13 \<longleftrightarrow> g = 0) \<and> gp_accepts gn tn i s)\<rparr>"
    using assms by (intro fold_debounce_pad) simp_all
  then show ?thesis
    unfolding ex by (simp only: debounce_all_def PICO_GPIO_COUNT_def)
qed

lemma send_gamepad_Some:
  assumes "send_gamepad ready i (s, sent, n) = Some (s', sent', n')" "i < length (gamepads s)"
  shows "states s' = states s" "timers s' = timers s"
    "length (gamepads s') = length (gamepads s)"
    "\<And>j. j \<noteq> i \<Longrightarrow> gamepads s' ! j = gamepads s ! j"
    "\<not> needToSend (gamepads s' ! i)"
    "needToSend (gamepads s ! i) \<Longrightarrow>
       buttonStates (gamepads s' ! i) = build_report (states s) i \<and>
       sent' = sent @ [(REPORT_ID_GAMEPAD_A + i, build_report (states s) i)]"
    "\<not> needToSend (gamepads s ! i) \<Longrightarrow> s' = s \<and> sent' = sent"
  using assms
  by (auto simp: send_gamepad_def Let_def split: if_splits option.splits)

lemma gp_inv_init: "gp_inv gp_init"
proof -
  have "build_report (replicate 26 0) g = 0" if "g < 2" for g
  proof (rule bit_eqI)
    fix n
    have "\<And>k. k < 13 \<Longrightarrow> replicate 26 (0::u32) ! (g * 13 + k) = 0" using that by simp
    then show "bit (build_report (replicate 26 0) g) n \<longleftrightarrow> bit (0::u32) n"
      by (simp add: bit_build_report_raw)
  qed
  then show ?thesis
    by (simp add: gp_inv_def gp_init_def nth_replicate less_Suc_eq numeral_2_eq_2)
qed

lemma send_phase:
  assumes len: "length (gamepads s1) = 2"
    and s0: "send_gamepad ready 0 (s1, [], 0) = Some c0"
    and s1: "send_gamepad ready 1 c0 = Some (s2, sent, n)"
  shows "states s2 = states s1" "timers s2 = timers s1" "length (gamepads s2) = 2"
    "\<And>g. g < 2 \<Longrightarrow> \<not> needToSend (gamepads s2 ! g)"
    "\<And>g. g < 2 \<Longrightarrow> needToSend (gamepads s1 ! g) \<Longrightarrow>
        buttonStates (gamepads s2 ! g) = build_report (states s1) g"
    "\<And>g. g < 2 \<Longrightarrow> \<not> needToSend (gamepads s1 ! g) \<Longrightarrow> gamepads s2 ! g = gamepads s1 ! g"
    "sent = (if needToSend (gamepads s1 ! 0)
               then [(REPORT_ID_GAMEPAD_A, build_report (states s1) 0)] else []) @
            (if needToSend (gamepads s1 ! 1)
               then [(REPORT_ID_GAMEPAD_A + 1, build_report (states s1) 1)] else [])"
proof -
  obtain sa senta na where c0: "c0 = (sa, senta, na)" by (cases c0) auto
  note A = send_gamepad_Some [OF s0 [unfolded c0]]
  have lena: "length (gamepads sa) = 2" using A(3) len by simp
  note B = send_gamepad_Some [OF s1 [unfolded c0]]
  have sa1: "gamepads sa ! 1 = gamepads s1 ! 1" using A(4) [of 1] len by simp
  have s20: "gamepads s2 ! 0 = gamepads sa ! 0" using B(4) [of 0] lena by simp
  show "states s2 = states s1" using A(1) B(1) len lena by simp
  show "timers s2 = timers s1" using A(2) B(2) len lena by simp
  show "length (gamepads s2) = 2" using B(3) lena by simp
  have sts: "states sa = states s1" using A(1) len by simp
  show "\<not> needToSend (gamepads s2 ! g)" if "g < 2" for g
  proof -
    from that consider "g = 0" | "g = 1" by linarith
    then show ?thesis using A(5) B(5) s20 len lena by cases simp_all
  qed
  show "buttonStates (gamepads s2 ! g) = build_report (states s1) g"
    if "g < 2" "needToSend (gamepads s1 ! g)" for g
  proof -
    from that(1) consider "g = 0" | "g = 1" by linarith
    then show ?thesis using A(6) B(6) s20 sa1 sts that(2) len lena by cases simp_all
  qed
  show "gamepads s2 ! g = gamepads s1 ! g" if "g < 2" "\<not> needToSend (gamepads s1 ! g)" for g
  proof -
    from that(1) consider "g = 0" | "g = 1" by linarith
    then show ?thesis
    proof cases
      case 1
      then show ?thesis using A(7) s20 that(2) len by simp
    next
      case 2
      then have "\<not> needToSend (gamepads sa ! 1)" using sa1 that(2) by simp
      then have "s2 = sa" using B(7) lena by simp
      then show ?thesis using 2 sa1 by simp
    qed
  qed
  have "senta = (if needToSend (gamepads s1 ! 0)
               then [(REPORT_ID_GAMEPAD_A, build_report (states s1) 0)] else [])"
    using A(6,7) len by (cases "needToSend (gamepads s1 ! 0)") simp_all
  moreover have "sent = senta @ (if needToSend (gamepads s1 ! 1)
               then [(REPORT_ID_GAMEPAD_A + 1, build_report (states s1) 1)] else [])"
    using B(6,7) lena sa1 sts by (cases "needToSend (gamepads s1 ! 1)") simp_all
  ultimately show "sent = (if needToSend (gamepads s1 ! 0)
               then [(REPORT_ID_GAMEPAD_A, build_report (states s1) 0)] else []) @
            (if needToSend (gamepads s1 ! 1)
               then [(REPORT_ID_GAMEPAD_A + 1, build_report (states s1) 1)] else [])"
    by simp
qed

lemma loop_gp_Ticked:
  assumes inv: "gp_inv s" and tick: "loop_gp e s = Some (Ticked s' led sent)"
  shows "states s' = states (debounce_all (NOT (gpio_all e) AND PICO_GPIO_MASK) (ucast (time_us e div 1000)) s)"
    and "timers s' = timers (debounce_all (NOT (gpio_all e) AND PICO_GPIO_MASK) (ucast (time_us e div 1000)) s)"
    and "gp_inv s'"
    and "sent = (if group_changed s s' 0 then [(REPORT_ID_GAMEPAD_A, build_report (states s') 0)] else []) @
                (if group_changed s s' 1 then [(REPORT_ID_GAMEPAD_A + 1, build_report (states s') 1)] else [])"
    and "\<And>g. g < 2 \<Longrightarrow> \<not> group_changed s s' g \<Longrightarrow> gamepads s' ! g = gamepads s ! g"
proof -
  define gn where "gn = NOT (gpio_all e) AND PICO_GPIO_MASK"
  define tn :: u32 where "tn = ucast (time_us e div 1000)"
  define s1 where "s1 = debounce_all gn tn s"
  from inv have len: "length (gamepads s) = 2" "length (timers s) = 26" "length (states s) = 26"
    and bits: "\<And>i. i < 26 \<Longrightarrow> states s ! i = 0 \<or> states s ! i = 1"
    and clean: "\<And>g. g < 2 \<Longrightarrow> \<not> needToSend (gamepads s ! g)"
    and mask: "\<And>g. g < 2 \<Longrightarrow> buttonStates (gamepads s ! g) = build_report (states s) g"
    by (simp_all add: gp_inv_def)
  have len1: "length (gamepads s1) = 2" "length (timers s1) = 26" "length (states s1) = 26"
    using len by (simp_all add: s1_def debounce_all_lengths)
  from tick obtain c0 n where
    s0: "send_gamepad (usb_ready e) 0 (s1, [], 0) = Some c0" and
    s1: "send_gamepad (usb_ready e) 1 c0 = Some (s', sent, n)"
    unfolding loop_gp_def Let_def gn_def [symmetric] tn_def [symmetric] s1_def [symmetric]
    by (auto split: if_splits option.splits)
  note P = send_phase [OF len1(1) s0 s1]
  show st: "states s' = states (debounce_all (NOT (gpio_all e) AND PICO_GPIO_MASK) (ucast (time_us e div 1000)) s)"
    using P(1) by (simp add: s1_def gn_def tn_def)
  show "timers s' = timers (debounce_all (NOT (gpio_all e) AND PICO_GPIO_MASK) (ucast (time_us e div 1000)) s)"
    using P(2) by (simp add: s1_def gn_def tn_def)
  have pad: "gamepads s1 ! g = (gamepads s ! g)\<lparr>needToSend := group_changed s s' g\<rparr>" if "g < 2" for g
    using debounce_all_pad [OF len(3,2,1) that, of gn tn] clean [OF that] P(1)
    by (simp add: s1_def [symmetric] group_changed_def)
  have need: "needToSend (gamepads s1 ! g) = group_changed s s' g" if "g < 2" for g
    using pad [OF that] by simp
  have bits1: "states s1 ! i = 0 \<or> states s1 ! i = 1" if "i < 26" for i
    using debounce_all_slot(1) [OF len(3,2) that, of gn tn] bits [OF that] button_level_01 [of gn i]
    by (auto simp: s1_def)
  have unchanged: "gamepads s' ! g = gamepads s ! g" if "g < 2" "\<not> group_changed s s' g" for g
  proof -
    have "gamepads s' ! g = gamepads s1 ! g" using P(6) [OF that(1)] need [OF that(1)] that(2) by simp
    also have "\<dots> = gamepads s ! g" using pad [OF that(1)] that(2) clean [OF that(1)] by simp
    finally show ?thesis .
  qed
  then show "\<And>g. g < 2 \<Longrightarrow> \<not> group_changed s s' g \<Longrightarrow> gamepads s' ! g = gamepads s ! g" .
  have maskeq: "buttonStates (gamepads s' ! g) = build_report (states s') g" if "g < 2" for g
  proof (cases "group_changed s s' g")
    case True
    then show ?thesis using P(5) [OF that] need [OF that] P(1) by simp
  next
    case False
    then have "\<And>k. k < 13 \<Longrightarrow> states s ! (g * 13 + k) = states s' ! (g * 13 + k)"
      by (auto simp: group_changed_def)
    then have "build_report (states s) g = build_report (states s') g" by (rule build_report_cong)
    then show ?thesis using unchanged [OF that False] mask [OF that] by simp
  qed
  show "gp_inv s'"
    unfolding gp_inv_def using P(1,2,3,4) len1 bits1 maskeq by auto
  show "sent = (if group_changed s s' 0 then [(REPORT_ID_GAMEPAD_A, build_report (states s') 0)] else []) @
                (if group_changed s s' 1 then [(REPORT_ID_GAMEPAD_A + 1, build_report (states s') 1)] else [])"
    using P(7) need [of 0] need [of 1] P(1) by simp
qed

lemma reachable_gp_inv: "reachable_gp s \<Longrightarrow> gp_inv s"
  by (induction rule: reachable_gp.induct) (auto intro: gp_inv_init loop_gp_Ticked(3))

lemma wait_ready_now: "ready n \<Longrightarrow> wait_ready ready n = Some (Suc n)"
  by (subst wait_ready.simps) simp

lemma wait_ready_returns: "ready (n + k) \<Longrightarrow> \<exists>m. wait_ready ready n = Some m"
proof (induction k arbitrary: n)
  case 0
  then show ?case by (simp add: wait_ready_now)
next
  case (Suc k)
  then have "\<exists>m. wait_ready ready (Suc n) = Some m" by simp
  then show ?case by (subst wait_ready.simps) simp
qed

lemma send_gamepad_returns:
  assumes "\<forall>n. \<exists>k. ready (n + k)"
  shows "\<exists>s' sent' n'. send_gamepad ready i (s, sent, n) = Some (s', sent', n')"
proof -
  from assms obtain k where "ready (n + k)" by blast
  then obtain m where "wait_ready ready n = Some m" using wait_ready_returns by blast
  then show ?thesis by (simp add: send_gamepad_def Let_def)
qed

text \<open>A call of \<open>loop()\<close> returns whenever the transport keeps becoming ready: it either
  takes the wake-up branch or completes the pass.\<close>

lemma loop_gp_returns:
  assumes "\<forall>n. \<exists>k. usb_ready e (n + k)"
  shows "loop_gp e s = Some Rebooted \<or> (\<exists>s' led sent. loop_gp e s = Some (Ticked s' led sent))"
proof (cases "suspended e \<and> NOT (gpio_all e) AND PICO_GPIO_MASK \<noteq> 0")
  case True
  then show ?thesis by (simp add: loop_gp_def Let_def)
next
  case False
  define s1 where "s1 = debounce_all (NOT (gpio_all e) AND PICO_GPIO_MASK) (ucast (time_us e div 1000)) s"
  from send_gamepad_returns [OF assms, of 0 s1 "[]" 0]
  obtain sa senta na where a: "send_gamepad (usb_ready e) 0 (s1, [], 0) = Some (sa, senta, na)"
    by blast
  from send_gamepad_returns [OF assms, of 1 sa senta na]
  obtain sb sentb nb where b: "send_gamepad (usb_ready e) 1 (sa, senta, na) = Some (sb, sentb, nb)"
    by blast
  have "loop_gp e s = Some (Ticked sb (NOT (gpio_all e) AND PICO_GPIO_MASK \<noteq> 0) sentb)"
    using False a b unfolding loop_gp_def Let_def s1_def [symmetric] by simp
  then show ?thesis by blast
qed

lemma loop_press0: "loop_gp env_press0 gp_init = Some (Ticked after_press0 True [(1, 1)])"
  by code_simp

text \<open>
  C10. In every reachable state of the gamepad sketch, every report mask handed to
  \<open>sendReport\<close> has bits 13 to 31 clear: it is below \<open>2 ^ 13\<close>, and bit \<open>n\<close> of the mask of
  gamepad \<open>g\<close> is set exactly when \<open>n < 13\<close> and the confirmed state of button
  \<open>g * 13 + n\<close> is 1.
\<close>

theorem sent_mask_upper_bits_clear:
  assumes "reachable_gp s" "loop_gp e s = Some (Ticked s' led sent)" "(rid, m) \<in> set sent"
  shows "m < 2 ^ 13 \<and> (\<forall>n. 13 \<le> n \<longrightarrow> \<not> bit m n) \<and>
         (\<exists>g<2. rid = REPORT_ID_GAMEPAD_A + g \<and>
            (\<forall>n. bit m n \<longleftrightarrow> n < 13 \<and> states s' ! (g * 13 + n) = 1))"
proof -
  have inv: "gp_inv s" using assms(1) by (rule reachable_gp_inv)
  note L = loop_gp_Ticked [OF inv assms(2)]
  from L(4) assms(3) obtain g where g: "g < 2" "rid = REPORT_ID_GAMEPAD_A + g"
    "m = build_report (states s') g"
    by (auto split: if_splits)
  from L(3) have "\<And>i. i < 26 \<Longrightarrow> states s' ! i = 0 \<or> states s' ! i = 1"
    by (simp add: gp_inv_def)
  then have "\<forall>k<13. states s' ! (g * 13 + k) = 0 \<or> states s' ! (g * 13 + k) = 1"
    using g(1) by auto
  then have bits: "\<And>n. bit m n \<longleftrightarrow> n < 13 \<and> states s' ! (g * 13 + n) = 1"
    unfolding g(3) by (rule bit_build_report)
  then have hi: "\<forall>n. 13 \<le> n \<longrightarrow> \<not> bit m n" by auto
  have "m AND mask 13 = m"
    by (rule bit_eqI) (use bits in \<open>auto simp: bit_and_iff bit_mask_iff\<close>)
  moreover have "m AND mask 13 < 2 ^ 13"
    by (rule and_mask_less_size) (simp add: word_size)
  ultimately have "m < 2 ^ 13" by simp
  with hi bits g show ?thesis by blast
qed

theorem sent_mask_upper_bits_clear_witness:
  "reachable_gp gp_init \<and> loop_gp env_press0 gp_init = Some (Ticked after_press0 True [(1, 1)]) \<and>
   (1 :: u32) < 2 ^ 13 \<and> \<not> bit (1 :: u32) 13"
proof -
  have h1: "reachable_gp gp_init" by (rule reach_init)
  have h2: "loop_gp env_press0 gp_init = Some (Ticked after_press0 True [(1, 1)])"
    by (rule loop_press0)
  have h3: "(1, 1) \<in> set [(1 :: nat, 1 :: u32)]" by simp
  from sent_mask_upper_bits_clear [OF h1 h2 h3] h1 h2 show ?thesis by simp
qed

lemma loop_gp_reports:
  assumes "reachable_gp s" "loop_gp e s = Some (Ticked s' led sent)"
  shows "(\<forall>rid m. (rid, m) \<in> set sent \<longrightarrow>
            (\<exists>g<2. rid = REPORT_ID_GAMEPAD_A + g \<and> group_changed s s' g \<and>
                    m = build_report (states s') g))"
    and "\<forall>g<2. \<not> needToSend (gamepads s' ! g) \<and>
                buttonStates (gamepads s' ! g) = build_report (states s') g"
    and "\<forall>g<2. \<forall>n. bit (buttonStates (gamepads s' ! g)) n \<noteq> bit (buttonStates (gamepads s ! g)) n \<longrightarrow>
                n < 13 \<and> states s' ! (g * 13 + n) \<noteq> states s ! (g * 13 + n)"
    and "\<forall>g<2. \<not> group_changed s s' g \<longrightarrow>
                gamepads s' ! g = gamepads s ! g \<and> (\<forall>m. (REPORT_ID_GAMEPAD_A + g, m) \<notin> set sent)"
    and "\<forall>g<2. group_changed s s' g \<longrightarrow>
                (REPORT_ID_GAMEPAD_A + g, build_report (states s') g) \<in> set sent"
proof -
  have inv: "gp_inv s" using assms(1) by (rule reachable_gp_inv)
  note L = loop_gp_Ticked [OF inv assms(2)]
  have inv': "gp_inv s'" by (rule L(3))
  show "\<forall>rid m. (rid, m) \<in> set sent \<longrightarrow>
            (\<exists>g<2. rid = REPORT_ID_GAMEPAD_A + g \<and> group_changed s s' g \<and>
                    m = build_report (states s') g)"
  proof (intro allI impI)
    fix rid m assume "(rid, m) \<in> set sent"
    then consider "group_changed s s' 0" "rid = REPORT_ID_GAMEPAD_A + 0" "m = build_report (states s') 0"
      | "group_changed s s' 1" "rid = REPORT_ID_GAMEPAD_A + 1" "m = build_report (states s') 1"
      by (subst (asm) L(4)) (auto split: if_splits)
    then show "\<exists>g<2. rid = REPORT_ID_GAMEPAD_A + g \<and> group_changed s s' g \<and>
                    m = build_report (states s') g"
    proof cases
      case 1
      then show ?thesis by (intro exI [of _ 0]) simp
    next
      case 2
      then show ?thesis by (intro exI [of _ 1]) simp
    qed
  qed
  show "\<forall>g<2. \<not> needToSend (gamepads s' ! g) \<and>
                buttonStates (gamepads s' ! g) = build_report (states s') g"
    using inv' by (simp add: gp_inv_def)
  show "\<forall>g<2. \<forall>n. bit (buttonStates (gamepads s' ! g)) n \<noteq> bit (buttonStates (gamepads s ! g)) n \<longrightarrow>
                n < 13 \<and> states s' ! (g * 13 + n) \<noteq> states s ! (g * 13 + n)"
  proof (intro allI impI)
    fix g n assume g: "g < 2"
      and d: "bit (buttonStates (gamepads s' ! g)) n \<noteq> bit (buttonStates (gamepads s ! g)) n"
    have b: "\<forall>k<13. states s ! (g * 13 + k) = 0 \<or> states s ! (g * 13 + k) = 1"
      using inv g by (auto simp: gp_inv_def)
    have b': "\<forall>k<13. states s' ! (g * 13 + k) = 0 \<or> states s' ! (g * 13 + k) = 1"
      using inv' g by (auto simp: gp_inv_def)
    have "buttonStates (gamepads s ! g) = build_report (states s) g"
      "buttonStates (gamepads s' ! g) = build_report (states s') g"
      using inv inv' g by (simp_all add: gp_inv_def)
    with d have "(n < 13 \<and> states s' ! (g * 13 + n) = 1) \<noteq> (n < 13 \<and> states s ! (g * 13 + n) = 1)"
      by (simp add: bit_build_report [OF b] bit_build_report [OF b'])
    then show "n < 13 \<and> states s' ! (g * 13 + n) \<noteq> states s ! (g * 13 + n)" by auto
  qed
  show "\<forall>g<2. \<not> group_changed s s' g \<longrightarrow>
                gamepads s' ! g = gamepads s ! g \<and> (\<forall>m. (REPORT_ID_GAMEPAD_A + g, m) \<notin> set sent)"
  proof (intro allI impI)
    fix g assume g: "g < 2" and n: "\<not> group_changed s s' g"
    from g consider "g = 0" | "g = 1" by linarith
    then have "\<forall>m. (REPORT_ID_GAMEPAD_A + g, m) \<notin> set sent"
      using n by cases (subst L(4), simp add: REPORT_ID_GAMEPAD_A_def)+
    with L(5) [OF g n]
    show "gamepads s' ! g = gamepads s ! g \<and> (\<forall>m. (REPORT_ID_GAMEPAD_A + g, m) \<notin> set sent)"
      by simp
  qed
  show "\<forall>g<2. group_changed s s' g \<longrightarrow>
                (REPORT_ID_GAMEPAD_A + g, build_report (states s') g) \<in> set sent"
  proof (intro allI impI)
    fix g :: nat assume g: "g < 2" and c: "group_changed s s' g"
    from g consider "g = 0" | "g = 1" by linarith
    then show "(REPORT_ID_GAMEPAD_A + g, build_report (states s') g) \<in> set sent"
      using c by cases (subst L(4), simp)+
  qed
qed

lemma build_report_bits:
  assumes "gp_inv s" "g < 2"
  shows "bit (build_report (states s) g) n \<longleftrightarrow> n < 13 \<and> states s ! (g * 13 + n) = 1"
proof -
  have "\<forall>k<13. states s ! (g * 13 + k) = 0 \<or> states s ! (g * 13 + k) = 1"
    using assms by (auto simp: gp_inv_def)
  then show ?thesis by (rule bit_build_report)
qed

text \<open>
  C6. In every reachable state, after a call of \<open>loop()\<close> that returns: every report sent
  belongs to a gamepad with a changed button and is the mask rebuilt from the confirmed
  states as they are after debouncing, that is, bit \<open>n\<close> of the mask of gamepad \<open>g\<close> is
  set exactly when \<open>n < 13\<close> and the confirmed state of button \<open>g * 13 + n\<close> is 1; every
  gamepad is unmarked, and its stored mask has exactly these bits; a mask bit differs
  from its value before the call only at a position below 13 whose own button changed
  state; a gamepad none of whose buttons changed keeps its mask and sends nothing, and
  a gamepad with a changed button sends its stored mask.
\<close>

theorem gamepad_report_isolation:
  assumes "reachable_gp s" "loop_gp e s = Some (Ticked s' led sent)"
  shows "(\<forall>rid m. (rid, m) \<in> set sent \<longrightarrow>
            (\<exists>g<2. rid = REPORT_ID_GAMEPAD_A + g \<and> group_changed s s' g \<and>
                    m = build_report (states s') g \<and>
                    (\<forall>n. bit m n \<longleftrightarrow> n < 13 \<and> states s' ! (g * 13 + n) = 1))) \<and>
         (\<forall>g<2. \<not> needToSend (gamepads s' ! g) \<and>
                (\<forall>n. bit (buttonStates (gamepads s' ! g)) n \<longleftrightarrow>
                       n < 13 \<and> states s' ! (g * 13 + n) = 1)) \<and>
         (\<forall>g<2. \<forall>n. bit (buttonStates (gamepads s' ! g)) n \<noteq> bit (buttonStates (gamepads s ! g)) n \<longrightarrow>
                n < 13 \<and> states s' ! (g * 13 + n) \<noteq> states s ! (g * 13 + n)) \<and>
         (\<forall>g<2. \<not> group_changed s s' g \<longrightarrow>
                gamepads s' ! g = gamepads s ! g \<and> (\<forall>m. (REPORT_ID_GAMEPAD_A + g, m) \<notin> set sent)) \<and>
         (\<forall>g<2. group_changed s s' g \<longrightarrow>
                (REPORT_ID_GAMEPAD_A + g, buttonStates (gamepads s' ! g)) \<in> set sent)"
proof -
  note R = loop_gp_reports [OF assms]
  have inv': "gp_inv s'"
    using loop_gp_Ticked(3) [OF reachable_gp_inv [OF assms(1)] assms(2)] .
  note B = build_report_bits [OF inv']
  have 1: "\<forall>rid m. (rid, m) \<in> set sent \<longrightarrow>
            (\<exists>g<2. rid = REPORT_ID_GAMEPAD_A + g \<and> group_changed s s' g \<and>
                    m = build_report (states s') g \<and>
                    (\<forall>n. bit m n \<longleftrightarrow> n < 13 \<and> states s' ! (g * 13 + n) = 1))"
  proof (intro allI impI)
    fix rid m assume "(rid, m) \<in> set sent"
    with R(1) obtain g where g: "g < 2" "rid = REPORT_ID_GAMEPAD_A + g" "group_changed s s' g"
      "m = build_report (states s') g" by blast
    from B [OF g(1)] g(4) have "\<forall>n. bit m n \<longleftrightarrow> n < 13 \<and> states s' ! (g * 13 + n) = 1"
      by simp
    with g show "\<exists>g<2. rid = REPORT_ID_GAMEPAD_A + g \<and> group_changed s s' g \<and>
                    m = build_report (states s') g \<and>
                    (\<forall>n. bit m n \<longleftrightarrow> n < 13 \<and> states s' ! (g * 13 + n) = 1)"
      by blast
  qed
  have 2: "\<forall>g<2. \<not> needToSend (gamepads s' ! g) \<and>
                (\<forall>n. bit (buttonStates (gamepads s' ! g)) n \<longleftrightarrow>
                       n < 13 \<and> states s' ! (g * 13 + n) = 1)"
  proof (intro allI impI)
    fix g :: nat assume g: "g < 2"
    with R(2) have "\<not> needToSend (gamepads s' ! g)"
      "buttonStates (gamepads s' ! g) = build_report (states s') g" by simp_all
    with B [OF g] show "\<not> needToSend (gamepads s' ! g) \<and>
                (\<forall>n. bit (buttonStates (gamepads s' ! g)) n \<longleftrightarrow>
                       n < 13 \<and> states s' ! (g * 13 + n) = 1)"
      by simp
  qed
  have 5: "\<forall>g<2. group_changed s s' g \<longrightarrow>
                (REPORT_ID_GAMEPAD_A + g, buttonStates (gamepads s' ! g)) \<in> set sent"
    using R(2) R(5) by simp
  from 1 2 R(3) R(4) 5 show ?thesis by (intro conjI)
qed

theorem gamepad_report_isolation_witness:
  "reachable_gp gp_init \<and> loop_gp env_press0 gp_init = Some (Ticked after_press0 True [(1, 1)]) \<and>
   group_changed gp_init after_press0 0 \<and> \<not> group_changed gp_init after_press0 1 \<and>
   (1 :: u32) = build_report (states after_press0) 0 \<and>
   states after_press0 ! 0 = 1 \<and>
   gamepads after_press0 ! 1 = gamepads gp_init ! 1 \<and>
   \<not> needToSend (gamepads after_press0 ! 0)"
proof -
  have h1: "reachable_gp gp_init" by (rule reach_init)
  have h2: "loop_gp env_press0 gp_init = Some (Ticked after_press0 True [(1, 1)])"
    by (rule loop_press0)
  have c0: "group_changed gp_init after_press0 0"
    unfolding group_changed_def by (intro exI [of _ 0]) (simp add: gp_init_def after_press0_def)
  have c1: "\<not> group_changed gp_init after_press0 1"
    by (auto simp: group_changed_def gp_init_def after_press0_def nth_Cons')
  note T = gamepad_report_isolation [OF h1 h2]
  have "(1::nat, 1::u32) \<in> set [(1, 1)]" by simp
  from T [THEN conjunct1, rule_format, OF this]
  obtain g where g: "g < 2" "(1::nat) = REPORT_ID_GAMEPAD_A + g"
    "(1 :: u32) = build_report (states after_press0) g"
    "\<forall>n. bit (1 :: u32) n \<longleftrightarrow> n < 13 \<and> states after_press0 ! (g * 13 + n) = 1"
    by blast
  from g(2) have g0: "g = 0" by (simp add: REPORT_ID_GAMEPAD_A_def)
  from g(4) have "bit (1 :: u32) 0 \<longleftrightarrow> 0 < (13::nat) \<and> states after_press0 ! (g * 13 + 0) = 1"
    by (rule spec)
  then have "states after_press0 ! 0 = 1" unfolding g0 by simp
  moreover have "(1 :: u32) = build_report (states after_press0) 0" using g(3) g0 by simp
  moreover from T c1 have "gamepads after_press0 ! 1 = gamepads gp_init ! 1" by simp
  moreover from T have "\<not> needToSend (gamepads after_press0 ! 0)" by simp
  ultimately show ?thesis using h1 h2 c0 c1 by simp
qed

subsection \<open>The debounce gate of the three sketches\<close>

lemma handleButton_eq:
  assumes "0 < i" "i < length (inputs s)"
  shows "handleButton millisNow gpioStates i (s, out) =
    (if kb_accepts millisNow gpioStates i s then
       (s\<lparr>inputs := (inputs s)[i := (inputs s ! i)
              \<lparr>state := pin_level gpioStates (pin (inputs s ! i)), debTimestamp := millisNow\<rparr>],
          startBlock := startBlock s \<or>
              (\<not> state (inputs s ! 0) \<and> \<not> pin_level gpioStates (pin (inputs s ! i)))\<rparr>,
        out @ [if pin_level gpioStates (pin (inputs s ! i))
               then Release (resolved_code s i) else Press (resolved_code s i)])
     else (s, out))"
  using assms
  by (cases s) (auto simp: handleButton_def kb_accepts_def resolved_code_def Let_def)

lemma handleShiftButton_eq:
  assumes "0 < length (inputs s)"
  shows "handleShiftButton millisNow gpioStates s =
    (if kb_accepts millisNow gpioStates 0 s then
       (s\<lparr>inputs := (inputs s)[0 := (inputs s ! 0)
              \<lparr>state := pin_level gpioStates (pin (inputs s ! 0)), debTimestamp := millisNow\<rparr>],
          startBlock := startBlock s \<and> \<not> pin_level gpioStates (pin (inputs s ! 0))\<rparr>,
        if \<not> startBlock s \<and> pin_level gpioStates (pin (inputs s ! 0))
        then [Press (btn (inputs s ! 0)), Release (btn (inputs s ! 0))] else [])
     else (s, []))"
  using assms
  by (cases s) (auto simp: handleShiftButton_def kb_accepts_def Let_def)

lemma handleInput_eq:
  assumes "i < length (inputs s)"
  shows "handleInput r i isShift (s, out) =
    (if orig_accepts r i s then
       (s\<lparr>inputs := (inputs s)[i := (inputs s ! i)
              \<lparr>debTimestamp := commit_millis r, state := commit_level r\<rparr>],
          startBlock := (if isShift then \<not> commit_level r else startBlock s)\<rparr>,
        (let b = (if isShift \<or> (if i = 0 then commit_level r else state (inputs s ! 0))
                  then btn (inputs s ! i) else btn_shift (inputs s ! i))
         in if 32 < b then out @ [if commit_level r then Release b else Press b] else out))
     else (s, out))"
  using assms
  by (cases s) (auto simp: handleInput_def orig_accepts_def Let_def)

lemma kb_idle_eq: "kb_idle = kb_globals"
  unfolding kb_idle_def by code_simp

lemma orig_idle_eq: "orig_idle = kb_globals_orig"
  unfolding orig_idle_def by code_simp

lemma length_kb_globals: "length (inputs kb_globals) = 26"
  by (simp add: kb_globals_def inputs_table_def)

lemma length_kb_globals_orig: "length (inputs kb_globals_orig) = 26"
  by (simp add: kb_globals_orig_def inputs_table_orig_def)

text \<open>
  C1 (as amended). For every logical input, raw sample and clock value, the debounce
  step accepts a transition exactly when the raw level differs from the input's
  confirmed state and the elapsed time, the 32-bit difference between the clock and the
  input's last-change timestamp, passes the gate: at least the window of 10 ms in the
  refactored keyboard sketch (\<open>handleButtons\<close> for inputs 1 to 25, \<open>handleShiftButton\<close> for
  input 0), strictly more than the window in the original keyboard sketch (40 ms) and
  in the gamepad sketch (8 ms). On acceptance the confirmed state becomes the raw level
  and the timestamp the clock value (the original sketch reads pin and clock once more
  for the store), and the edge is signalled: the code after the store runs for the
  direction given by the new state, as the right-hand sides show. When the gate fails,
  the state is returned as it was and nothing is issued.
\<close>

theorem debounce_gate:
  "(0 < i \<and> i < length (inputs s) \<longrightarrow>
      handleButton millisNow gpioStates i (s, out) =
        (if state (inputs s ! i) \<noteq> pin_level gpioStates (pin (inputs s ! i)) \<and>
            DEBOUNCE_TIME \<le> millisNow - debTimestamp (inputs s ! i)
         then
           (s\<lparr>inputs := (inputs s)[i := (inputs s ! i)
                  \<lparr>state := pin_level gpioStates (pin (inputs s ! i)), debTimestamp := millisNow\<rparr>],
              startBlock := startBlock s \<or>
                  (\<not> state (inputs s ! 0) \<and> \<not> pin_level gpioStates (pin (inputs s ! i)))\<rparr>,
            out @ [if pin_level gpioStates (pin (inputs s ! i))
                   then Release (resolved_code s i) else Press (resolved_code s i)])
         else (s, out))) \<and>
   (0 < length (inputs s) \<longrightarrow>
      handleShiftButton millisNow gpioStates s =
        (if state (inputs s ! 0) \<noteq> pin_level gpioStates (pin (inputs s ! 0)) \<and>
            DEBOUNCE_TIME \<le> millisNow - debTimestamp (inputs s ! 0)
         then
           (s\<lparr>inputs := (inputs s)[0 := (inputs s ! 0)
                  \<lparr>state := pin_level gpioStates (pin (inputs s ! 0)), debTimestamp := millisNow\<rparr>],
              startBlock := startBlock s \<and> \<not> pin_level gpioStates (pin (inputs s ! 0))\<rparr>,
            if \<not> startBlock s \<and> pin_level gpioStates (pin (inputs s ! 0))
            then [Press (btn (inputs s ! 0)), Release (btn (inputs s ! 0))] else [])
         else (s, []))) \<and>
   (i < length (inputs s) \<longrightarrow>
      handleInput r i isShift (s, out) =
        (if debTime < gate_millis r - debTimestamp (inputs s ! i) \<and>
            gate_level r \<noteq> state (inputs s ! i)
         then
           (s\<lparr>inputs := (inputs s)[i := (inputs s ! i)
                  \<lparr>debTimestamp := commit_millis r, state := commit_level r\<rparr>],
              startBlock := (if isShift then \<not> commit_level r else startBlock s)\<rparr>,
            (let b = (if isShift \<or> (if i = 0 then commit_level r else state (inputs s ! 0))
                      then btn (inputs s ! i) else btn_shift (inputs s ! i))
             in if 32 < b then out @ [if commit_level r then Release b else Press b] else out))
         else (s, out))) \<and>
   debounce_button gpio_now time_now j g =
     (if DEBOUNCE_MS < time_now - timers g ! j \<and> button_level gpio_now j \<noteq> states g ! j
      then
        g\<lparr>states := (states g)[j := button_level gpio_now j],
          timers := (timers g)[j := time_now],
          gamepads := (gamepads g)[(if j < 13 then 0 else 1) :=
                         (gamepads g ! (if j < 13 then 0 else 1))\<lparr>needToSend := True\<rparr>]\<rparr>
      else g)"
  using handleButton_eq [of i s millisNow gpioStates out]
    handleShiftButton_eq [of s millisNow gpioStates]
    handleInput_eq [of i s r isShift out]
    debounce_button_eq [of gpio_now time_now j g]
  unfolding kb_accepts_def orig_accepts_def gp_accepts_def by blast

text \<open>In the witness each gate is passed at its smallest elapsed time: 10 ms for entry 1
  and for the shift button of the refactored sketch, 41 ms for entry 1 of the original
  sketch.\<close>

theorem debounce_gate_witness:
  "handleButton 10 0xFFFFFF7F 1 (kb_globals, []) =
     (kb_globals\<lparr>inputs := (inputs kb_globals)[1 := (inputs kb_globals ! 1)
                     \<lparr>state := False, debTimestamp := 10\<rparr>]\<rparr>, [Press 0x32]) \<and>
   handleShiftButton 10 0xFFFFFFBF kb_globals =
     (kb_globals\<lparr>inputs := (inputs kb_globals)[0 := (inputs kb_globals ! 0)
                     \<lparr>state := False, debTimestamp := 10\<rparr>]\<rparr>, []) \<and>
   handleInput (reads_at 41 False) 1 False (kb_globals_orig, []) =
     (kb_globals_orig\<lparr>inputs := (inputs kb_globals_orig)[1 := (inputs kb_globals_orig ! 1)
                     \<lparr>debTimestamp := 41, state := False\<rparr>]\<rparr>, [Press 0x36])"
proof -
  have h: "0 < (1::nat) \<and> 1 < length (inputs kb_globals)" "0 < length (inputs kb_globals)"
    "1 < length (inputs kb_globals_orig)"
    by (simp_all add: length_kb_globals length_kb_globals_orig)
  from debounce_gate [where i = 1 and s = kb_globals and millisNow = 10
      and gpioStates = "0xFFFFFF7F" and out = "[]", THEN conjunct1] h(1)
  have "handleButton 10 0xFFFFFF7F 1 (kb_globals, []) =
     (kb_globals\<lparr>inputs := (inputs kb_globals)[1 := (inputs kb_globals ! 1)
                     \<lparr>state := False, debTimestamp := 10\<rparr>]\<rparr>, [Press 0x32])"
    by (simp add: kb_globals_def inputs_table_def mk_input_def pin_level_def DEBOUNCE_TIME_def
        resolved_code_def)
  moreover from debounce_gate [where s = kb_globals and millisNow = 10
      and gpioStates = "0xFFFFFFBF", THEN conjunct2, THEN conjunct1] h(2)
  have "handleShiftButton 10 0xFFFFFFBF kb_globals =
     (kb_globals\<lparr>inputs := (inputs kb_globals)[0 := (inputs kb_globals ! 0)
                     \<lparr>state := False, debTimestamp := 10\<rparr>]\<rparr>, [])"
    by (simp add: kb_globals_def inputs_table_def mk_input_def pin_level_def DEBOUNCE_TIME_def)
  moreover from debounce_gate [where i = 1 and s = kb_globals_orig
      and r = "reads_at 41 False" and isShift = False and out = "[]",
      THEN conjunct2, THEN conjunct2, THEN conjunct1] h(3)
  have "handleInput (reads_at 41 False) 1 False (kb_globals_orig, []) =
     (kb_globals_orig\<lparr>inputs := (inputs kb_globals_orig)[1 := (inputs kb_globals_orig ! 1)
                     \<lparr>debTimestamp := 41, state := False\<rparr>]\<rparr>, [Press 0x36])"
    by (simp add: kb_globals_orig_def inputs_table_orig_def mk_input_def debTime_def
        reads_at_def)
  ultimately show ?thesis by (intro conjI)
qed

text \<open>Where the claim as stated fails: with the level differing and exactly the window
  elapsed (8 ms in the gamepad sketch, 40 ms in the original keyboard sketch) nothing is
  accepted.\<close>

theorem debounce_gate_counterexample:
  "button_level 0x100 0 \<noteq> states gp_init ! 0 \<and>
   DEBOUNCE_MS \<le> 8 - timers gp_init ! 0 \<and>
   debounce_button 0x100 8 0 gp_init = gp_init \<and>
   gate_level (reads_at 40 False) \<noteq> state (inputs orig_idle ! 1) \<and>
   debTime \<le> gate_millis (reads_at 40 False) - debTimestamp (inputs orig_idle ! 1) \<and>
   handleInput (reads_at 40 False) 1 False (orig_idle, []) = (orig_idle, [])"
  unfolding orig_idle_eq by code_simp

subsection \<open>Runs of samples\<close>

lemma fold_handleButton_slot:
  assumes "distinct js" "set js \<subseteq> {1..<length (inputs s)}"
  shows "length (inputs (fst (fold (handleButton t g) js (s, out)))) = length (inputs s) \<and>
         inputs (fst (fold (handleButton t g) js (s, out))) ! i =
           (if i \<in> set js \<and> kb_accepts t g i s
            then (inputs s ! i)\<lparr>state := pin_level g (pin (inputs s ! i)), debTimestamp := t\<rparr>
            else inputs s ! i)"
  using assms
proof (induction js arbitrary: s out)
  case Nil
  then show ?case by simp
next
  case (Cons j js)
  have j: "0 < j" "j < length (inputs s)" "j \<notin> set js" using Cons.prems by auto
  obtain s1 out1 where step: "handleButton t g j (s, out) = (s1, out1)"
    by (cases "handleButton t g j (s, out)")
  have len1: "length (inputs s1) = length (inputs s)"
    using step handleButton_eq [OF j(1,2), of t g out] by (auto split: if_splits)
  have same: "inputs s1 ! k = inputs s ! k" if "k \<noteq> j" for k
    using step handleButton_eq [OF j(1,2), of t g out] that by (auto split: if_splits)
  have atj: "inputs s1 ! j = (if kb_accepts t g j s
            then (inputs s ! j)\<lparr>state := pin_level g (pin (inputs s ! j)), debTimestamp := t\<rparr>
            else inputs s ! j)"
    using step handleButton_eq [OF j(1,2), of t g out] j(2) by (auto split: if_splits)
  have IH: "length (inputs (fst (fold (handleButton t g) js (s1, out1)))) = length (inputs s1) \<and>
         inputs (fst (fold (handleButton t g) js (s1, out1))) ! i =
           (if i \<in> set js \<and> kb_accepts t g i s1
            then (inputs s1 ! i)\<lparr>state := pin_level g (pin (inputs s1 ! i)), debTimestamp := t\<rparr>
            else inputs s1 ! i)"
    using Cons.prems len1 by (intro Cons.IH) auto
  show ?case
  proof (cases "i = j")
    case True
    then have "i \<notin> set js" using j by simp
    with IH True atj len1 step show ?thesis by simp
  next
    case False
    then have "kb_accepts t g i s1 = kb_accepts t g i s"
      using same [of i] by (simp add: kb_accepts_def)
    with IH False same [of i] len1 step show ?thesis by simp
  qed
qed

lemma handleButtons_slot:
  assumes "length (inputs s) = 26" "0 < i" "i < 26"
  shows "inputs (fst (handleButtons t g s)) ! i =
           (if kb_accepts t g i s
            then (inputs s ! i)\<lparr>state := pin_level g (pin (inputs s ! i)), debTimestamp := t\<rparr>
            else inputs s ! i)"
    and "length (inputs (fst (handleButtons t g s))) = 26"
proof -
  have "set [1..<26] \<subseteq> {1..<length (inputs s)}" using assms by auto
  then have *: "length (inputs (fst (fold (handleButton t g) [1..<26] (s, [])))) = length (inputs s) \<and>
         inputs (fst (fold (handleButton t g) [1..<26] (s, []))) ! i =
           (if i \<in> set [1..<26] \<and> kb_accepts t g i s
            then (inputs s ! i)\<lparr>state := pin_level g (pin (inputs s ! i)), debTimestamp := t\<rparr>
            else inputs s ! i)"
    by (intro fold_handleButton_slot) simp_all
  have i: "i \<in> set [1..<26]" using assms by simp
  show "inputs (fst (handleButtons t g s)) ! i =
           (if kb_accepts t g i s
            then (inputs s ! i)\<lparr>state := pin_level g (pin (inputs s ! i)), debTimestamp := t\<rparr>
            else inputs s ! i)"
    using * i unfolding handleButtons_def SW_INPUTS_def by presburger
  show "length (inputs (fst (handleButtons t g s))) = 26"
    using * assms(1) unfolding handleButtons_def SW_INPUTS_def by presburger
qed

lemma transitions_kb_quiet:
  assumes "length (inputs s) = 26" "0 < i" "i < 26"
    "\<forall>(t, g)\<in>set xs. \<not> kb_accepts t g i s"
  shows "transitions_kb i xs s = 0"
  using assms
proof (induction xs arbitrary: s)
  case Nil
  then show ?case by simp
next
  case (Cons x xs)
  obtain t g where x: "x = (t, g)" by (cases x)
  let ?s' = "fst (handleButtons t g s)"
  have na: "\<not> kb_accepts t g i s" using Cons.prems(4) x by simp
  have same: "inputs ?s' ! i = inputs s ! i"
    using handleButtons_slot(1) [OF Cons.prems(1-3), of t g] na by simp
  have len: "length (inputs ?s') = 26" using handleButtons_slot(2) [OF Cons.prems(1-3)] .
  have "\<forall>(t, g)\<in>set xs. \<not> kb_accepts t g i ?s'"
    using Cons.prems(4) same by (auto simp: kb_accepts_def)
  then have "transitions_kb i xs ?s' = 0"
    using len Cons.prems(2,3) by (intro Cons.IH)
  then show ?case using x same by simp
qed

lemma transitions_kb_same_level:
  assumes "length (inputs s) = 26" "0 < i" "i < 26"
    "\<forall>(t, g)\<in>set xs. pin_level g (pin (inputs s ! i)) = r"
  shows "transitions_kb i xs s \<le> (if state (inputs s ! i) = r then 0 else 1)"
  using assms
proof (induction xs arbitrary: s)
  case Nil
  then show ?case by simp
next
  case (Cons x xs)
  obtain t g where x: "x = (t, g)" by (cases x)
  let ?s' = "fst (handleButtons t g s)"
  have raw: "pin_level g (pin (inputs s ! i)) = r" using Cons.prems(4) x by simp
  note slot = handleButtons_slot(1) [OF Cons.prems(1-3), of t g]
  have len: "length (inputs ?s') = 26" using handleButtons_slot(2) [OF Cons.prems(1-3)] .
  have pin: "pin (inputs ?s' ! i) = pin (inputs s ! i)" using slot by simp
  have "\<forall>(t, g)\<in>set xs. pin_level g (pin (inputs ?s' ! i)) = r"
    using Cons.prems(4) pin by auto
  then have IH: "transitions_kb i xs ?s' \<le> (if state (inputs ?s' ! i) = r then 0 else 1)"
    using len Cons.prems(2,3) by (intro Cons.IH)
  show ?case
  proof (cases "kb_accepts t g i s")
    case True
    then have "state (inputs ?s' ! i) = r" "state (inputs s ! i) \<noteq> r"
      using slot raw by (auto simp: kb_accepts_def)
    with IH x show ?thesis by simp
  next
    case False
    then have "inputs ?s' ! i = inputs s ! i" using slot by simp
    with IH x show ?thesis by simp
  qed
qed

lemma transitions_gp_quiet:
  assumes "length (states s) = 26" "length (timers s) = 26" "i < 26"
    "\<forall>(t, g)\<in>set xs. \<not> gp_accepts g t i s"
  shows "transitions_gp i xs s = 0"
  using assms
proof (induction xs arbitrary: s)
  case Nil
  then show ?case by simp
next
  case (Cons x xs)
  obtain t g where x: "x = (t, g)" by (cases x)
  let ?s' = "debounce_all g t s"
  have na: "\<not> gp_accepts g t i s" using Cons.prems(4) x by simp
  have same: "states ?s' ! i = states s ! i" "timers ?s' ! i = timers s ! i"
    using debounce_all_slot [OF Cons.prems(1-3), of g t] na by simp_all
  have len: "length (states ?s') = 26" "length (timers ?s') = 26"
    using Cons.prems(1,2) by (simp_all add: debounce_all_lengths)
  have "\<forall>(t, g)\<in>set xs. \<not> gp_accepts g t i ?s'"
    using Cons.prems(4) same by (auto simp: gp_accepts_def)
  then have "transitions_gp i xs ?s' = 0"
    using len Cons.prems(3) by (intro Cons.IH)
  then show ?case using x same by simp
qed

lemma transitions_gp_same_level:
  assumes "length (states s) = 26" "length (timers s) = 26" "i < 26"
    "\<forall>(t, g)\<in>set xs. button_level g i = r"
  shows "transitions_gp i xs s \<le> (if states s ! i = r then 0 else 1)"
  using assms
proof (induction xs arbitrary: s)
  case Nil
  then show ?case by simp
next
  case (Cons x xs)
  obtain t g where x: "x = (t, g)" by (cases x)
  let ?s' = "debounce_all g t s"
  have raw: "button_level g i = r" using Cons.prems(4) x by simp
  note slot = debounce_all_slot(1) [OF Cons.prems(1-3), of g t]
  have len: "length (states ?s') = 26" "length (timers ?s') = 26"
    using Cons.prems(1,2) by (simp_all add: debounce_all_lengths)
  have "\<forall>(t, g)\<in>set xs. button_level g i = r" using Cons.prems(4) by auto
  then have IH: "transitions_gp i xs ?s' \<le> (if states ?s' ! i = r then 0 else 1)"
    using len Cons.prems(3) by (intro Cons.IH)
  show ?case
  proof (cases "gp_accepts g t i s")
    case True
    then have "states ?s' ! i = r" "states s ! i \<noteq> r"
      using slot raw by (auto simp: gp_accepts_def)
    with IH x show ?thesis by simp
  next
    case False
    then have "states ?s' ! i = states s ! i" using slot by simp
    with IH x show ?thesis by simp
  qed
qed

lemma handleShiftButton_slot:
  assumes "0 < length (inputs s)"
  shows "inputs (fst (handleShiftButton t g s)) ! 0 =
           (if kb_accepts t g 0 s
            then (inputs s ! 0)\<lparr>state := pin_level g (pin (inputs s ! 0)), debTimestamp := t\<rparr>
            else inputs s ! 0)"
    and "length (inputs (fst (handleShiftButton t g s))) = length (inputs s)"
  using assms handleShiftButton_eq [OF assms, of t g] by simp_all

lemma transitions_shift_quiet:
  assumes "0 < length (inputs s)" "\<forall>(t, g)\<in>set xs. \<not> kb_accepts t g 0 s"
  shows "transitions_shift xs s = 0"
  using assms
proof (induction xs arbitrary: s)
  case Nil
  then show ?case by simp
next
  case (Cons x xs)
  obtain t g where x: "x = (t, g)" by (cases x)
  let ?s' = "fst (handleShiftButton t g s)"
  have na: "\<not> kb_accepts t g 0 s" using Cons.prems(2) x by simp
  have same: "inputs ?s' ! 0 = inputs s ! 0"
    using handleShiftButton_slot(1) [OF Cons.prems(1), of t g] na by simp
  have len: "0 < length (inputs ?s')"
    using handleShiftButton_slot(2) [OF Cons.prems(1), of t g] Cons.prems(1) by simp
  have "\<forall>(t, g)\<in>set xs. \<not> kb_accepts t g 0 ?s'"
    using Cons.prems(2) same by (auto simp: kb_accepts_def)
  then have "transitions_shift xs ?s' = 0" using len by (intro Cons.IH)
  then show ?case using x same by simp
qed

lemma transitions_shift_same_level:
  assumes "0 < length (inputs s)"
    "\<forall>(t, g)\<in>set xs. pin_level g (pin (inputs s ! 0)) = r"
  shows "transitions_shift xs s \<le> (if state (inputs s ! 0) = r then 0 else 1)"
  using assms
proof (induction xs arbitrary: s)
  case Nil
  then show ?case by simp
next
  case (Cons x xs)
  obtain t g where x: "x = (t, g)" by (cases x)
  let ?s' = "fst (handleShiftButton t g s)"
  have raw: "pin_level g (pin (inputs s ! 0)) = r" using Cons.prems(2) x by simp
  note slot = handleShiftButton_slot(1) [OF Cons.prems(1), of t g]
  have len: "0 < length (inputs ?s')"
    using handleShiftButton_slot(2) [OF Cons.prems(1), of t g] Cons.prems(1) by simp
  have pin: "pin (inputs ?s' ! 0) = pin (inputs s ! 0)" using slot by simp
  have "\<forall>(t, g)\<in>set xs. pin_level g (pin (inputs ?s' ! 0)) = r"
    using Cons.prems(2) pin by auto
  then have IH: "transitions_shift xs ?s' \<le> (if state (inputs ?s' ! 0) = r then 0 else 1)"
    using len by (intro Cons.IH)
  show ?case
  proof (cases "kb_accepts t g 0 s")
    case True
    then have "state (inputs ?s' ! 0) = r" "state (inputs s ! 0) \<noteq> r"
      using slot raw by (auto simp: kb_accepts_def)
    with IH x show ?thesis by simp
  next
    case False
    then have "inputs ?s' ! 0 = inputs s ! 0" using slot by simp
    with IH x show ?thesis by simp
  qed
qed

lemma handleInput_slot:
  assumes "i < length (inputs s)"
  shows "inputs (fst (handleInput r i sh (s, out))) ! i =
           (if orig_accepts r i s
            then (inputs s ! i)\<lparr>debTimestamp := commit_millis r, state := commit_level r\<rparr>
            else inputs s ! i)"
    and "length (inputs (fst (handleInput r i sh (s, out)))) = length (inputs s)"
  using assms handleInput_eq [OF assms, of r sh out] by simp_all

lemma transitions_orig_quiet:
  assumes "i < length (inputs s)" "\<forall>r\<in>set rs. \<not> orig_accepts r i s"
  shows "transitions_orig i rs s = 0"
  using assms
proof (induction rs arbitrary: s)
  case Nil
  then show ?case by simp
next
  case (Cons r rs)
  let ?s' = "fst (handleInput r i (i = 0) (s, []))"
  have na: "\<not> orig_accepts r i s" using Cons.prems(2) by simp
  have same: "inputs ?s' ! i = inputs s ! i"
    using handleInput_slot(1) [OF Cons.prems(1), of r "i = 0" "[]"] na by simp
  have len: "i < length (inputs ?s')"
    using handleInput_slot(2) [OF Cons.prems(1), of r "i = 0" "[]"] Cons.prems(1) by simp
  have "\<forall>r\<in>set rs. \<not> orig_accepts r i ?s'"
    using Cons.prems(2) same by (auto simp: orig_accepts_def)
  then have "transitions_orig i rs ?s' = 0" using len by (intro Cons.IH)
  then show ?case using same by simp
qed

lemma transitions_orig_same_level:
  assumes "i < length (inputs s)" "\<forall>r\<in>set rs. gate_level r = l"
  shows "transitions_orig i rs s \<le> (if state (inputs s ! i) = l then 0 else 1)"
  using assms
proof (induction rs arbitrary: s)
  case Nil
  then show ?case by simp
next
  case (Cons r rs)
  let ?s' = "fst (handleInput r i (i = 0) (s, []))"
  have raw: "gate_level r = l" using Cons.prems(2) by simp
  note slot = handleInput_slot(1) [OF Cons.prems(1), of r "i = 0" "[]"]
  have len: "i < length (inputs ?s')"
    using handleInput_slot(2) [OF Cons.prems(1), of r "i = 0" "[]"] Cons.prems(1) by simp
  have "\<forall>r\<in>set rs. gate_level r = l" using Cons.prems(2) by simp
  then have IH: "transitions_orig i rs ?s' \<le> (if state (inputs ?s' ! i) = l then 0 else 1)"
    using len by (intro Cons.IH)
  show ?case
  proof (cases "state (inputs ?s' ! i) = state (inputs s ! i)")
    case True
    with IH show ?thesis by simp
  next
    case False
    then have acc: "orig_accepts r i s" using slot by (auto split: if_splits)
    then have old: "state (inputs s ! i) \<noteq> l" using raw by (auto simp: orig_accepts_def)
    with False have "state (inputs ?s' ! i) = l" by auto
    with IH old False show ?thesis by simp
  qed
qed

text \<open>
  C2. For a sequence of samples fed to the debounce step of one input (refactored
  keyboard sketch: inputs 1 to 25 through \<open>handleButtons\<close> and the shift button through
  \<open>handleShiftButton\<close>; gamepad sketch: buttons 0 to 25; original keyboard sketch: any
  input through \<open>handleInput\<close>): if every sample arrives while the 32-bit difference
  between its clock value and the input's last-change timestamp is below the debounce
  window, no transition is confirmed; if a sample confirms a transition and all later
  samples arrive within the window of it, that transition is the only one; and if all
  samples carry the same level for the input, at most one transition is confirmed in
  total.
\<close>

theorem debounce_runs:
  "(length (inputs s) = 26 \<and> 0 < i \<and> i < 26 \<longrightarrow>
      ((\<forall>(t, g)\<in>set xs. t - debTimestamp (inputs s ! i) < DEBOUNCE_TIME) \<longrightarrow>
          transitions_kb i xs s = 0) \<and>
      (state (inputs (fst (handleButtons ta ga s)) ! i) \<noteq> state (inputs s ! i) \<and>
       (\<forall>(t, g)\<in>set xs. t - ta < DEBOUNCE_TIME) \<longrightarrow>
          transitions_kb i ((ta, ga) # xs) s = 1) \<and>
      ((\<forall>(t, g)\<in>set xs. pin_level g (pin (inputs s ! i)) = r) \<longrightarrow>
          transitions_kb i xs s \<le> 1)) \<and>
   (length (states p) = 26 \<and> length (timers p) = 26 \<and> j < 26 \<longrightarrow>
      ((\<forall>(t, g)\<in>set ys. t - timers p ! j < DEBOUNCE_MS) \<longrightarrow>
          transitions_gp j ys p = 0) \<and>
      (states (debounce_all gb tb p) ! j \<noteq> states p ! j \<and>
       (\<forall>(t, g)\<in>set ys. t - tb < DEBOUNCE_MS) \<longrightarrow>
          transitions_gp j ((tb, gb) # ys) p = 1) \<and>
      ((\<forall>(t, g)\<in>set ys. button_level g j = q) \<longrightarrow>
          transitions_gp j ys p \<le> 1)) \<and>
   (0 < length (inputs s) \<longrightarrow>
      ((\<forall>(t, g)\<in>set zs. t - debTimestamp (inputs s ! 0) < DEBOUNCE_TIME) \<longrightarrow>
          transitions_shift zs s = 0) \<and>
      (state (inputs (fst (handleShiftButton tc gc s)) ! 0) \<noteq> state (inputs s ! 0) \<and>
       (\<forall>(t, g)\<in>set zs. t - tc < DEBOUNCE_TIME) \<longrightarrow>
          transitions_shift ((tc, gc) # zs) s = 1) \<and>
      ((\<forall>(t, g)\<in>set zs. pin_level g (pin (inputs s ! 0)) = r) \<longrightarrow>
          transitions_shift zs s \<le> 1)) \<and>
   (k < length (inputs s) \<longrightarrow>
      ((\<forall>c\<in>set rs. gate_millis c - debTimestamp (inputs s ! k) < debTime) \<longrightarrow>
          transitions_orig k rs s = 0) \<and>
      (state (inputs (fst (handleInput rc k (k = 0) (s, []))) ! k) \<noteq> state (inputs s ! k) \<and>
       (\<forall>c\<in>set rs. gate_millis c - commit_millis rc < debTime) \<longrightarrow>
          transitions_orig k (rc # rs) s = 1) \<and>
      ((\<forall>c\<in>set rs. gate_level c = l) \<longrightarrow>
          transitions_orig k rs s \<le> 1))"
proof (intro conjI impI)
  assume A: "length (inputs s) = 26 \<and> 0 < i \<and> i < 26"
  then have len: "length (inputs s) = 26" and i: "0 < i" "i < 26" by simp_all
  {
    assume "\<forall>(t, g)\<in>set xs. t - debTimestamp (inputs s ! i) < DEBOUNCE_TIME"
    then have "\<forall>(t, g)\<in>set xs. \<not> kb_accepts t g i s"
      by (auto simp: kb_accepts_def)
    then show "transitions_kb i xs s = 0" using len i by (intro transitions_kb_quiet)
  }
  {
    assume B: "state (inputs (fst (handleButtons ta ga s)) ! i) \<noteq> state (inputs s ! i) \<and>
       (\<forall>(t, g)\<in>set xs. t - ta < DEBOUNCE_TIME)"
    let ?s' = "fst (handleButtons ta ga s)"
    note slot = handleButtons_slot [OF len i, of ta ga]
    from B slot(1) have acc: "kb_accepts ta ga i s" by (auto split: if_splits)
    then have "debTimestamp (inputs ?s' ! i) = ta" using slot(1) by simp
    with B have "\<forall>(t, g)\<in>set xs. \<not> kb_accepts t g i ?s'"
      by (auto simp: kb_accepts_def)
    then have "transitions_kb i xs ?s' = 0" using slot(2) i by (intro transitions_kb_quiet)
    with B show "transitions_kb i ((ta, ga) # xs) s = 1" by simp
  }
  {
    assume "\<forall>(t, g)\<in>set xs. pin_level g (pin (inputs s ! i)) = r"
    then have "transitions_kb i xs s \<le> (if state (inputs s ! i) = r then 0 else 1)"
      using len i by (intro transitions_kb_same_level)
    then show "transitions_kb i xs s \<le> 1" by (simp split: if_splits)
  }
next
  assume A: "length (states p) = 26 \<and> length (timers p) = 26 \<and> j < 26"
  then have len: "length (states p) = 26" "length (timers p) = 26" and j: "j < 26" by simp_all
  {
    assume "\<forall>(t, g)\<in>set ys. t - timers p ! j < DEBOUNCE_MS"
    then have "\<forall>(t, g)\<in>set ys. \<not> gp_accepts g t j p"
      by (auto simp: gp_accepts_def)
    then show "transitions_gp j ys p = 0" using len j by (intro transitions_gp_quiet)
  }
  {
    assume B: "states (debounce_all gb tb p) ! j \<noteq> states p ! j \<and>
       (\<forall>(t, g)\<in>set ys. t - tb < DEBOUNCE_MS)"
    let ?p' = "debounce_all gb tb p"
    note slot = debounce_all_slot [OF len j, of gb tb]
    from B slot(1) have acc: "gp_accepts gb tb j p" by (auto split: if_splits)
    then have "timers ?p' ! j = tb" using slot(2) by simp
    with B have "\<forall>(t, g)\<in>set ys. \<not> gp_accepts g t j ?p'"
      by (auto simp: gp_accepts_def)
    moreover have "length (states ?p') = 26" "length (timers ?p') = 26"
      using len by (simp_all add: debounce_all_lengths)
    ultimately have "transitions_gp j ys ?p' = 0" using j by (intro transitions_gp_quiet)
    with B show "transitions_gp j ((tb, gb) # ys) p = 1" by simp
  }
  {
    assume "\<forall>(t, g)\<in>set ys. button_level g j = q"
    then have "transitions_gp j ys p \<le> (if states p ! j = q then 0 else 1)"
      using len j by (intro transitions_gp_same_level)
    then show "transitions_gp j ys p \<le> 1" by (simp split: if_splits)
  }
next
  assume len: "0 < length (inputs s)"
  {
    assume "\<forall>(t, g)\<in>set zs. t - debTimestamp (inputs s ! 0) < DEBOUNCE_TIME"
    then have "\<forall>(t, g)\<in>set zs. \<not> kb_accepts t g 0 s"
      by (auto simp: kb_accepts_def)
    then show "transitions_shift zs s = 0" using len by (intro transitions_shift_quiet)
  }
  {
    assume B: "state (inputs (fst (handleShiftButton tc gc s)) ! 0) \<noteq> state (inputs s ! 0) \<and>
       (\<forall>(t, g)\<in>set zs. t - tc < DEBOUNCE_TIME)"
    let ?s' = "fst (handleShiftButton tc gc s)"
    note slot = handleShiftButton_slot [OF len, of tc gc]
    from B slot(1) have acc: "kb_accepts tc gc 0 s" by (auto split: if_splits)
    then have "debTimestamp (inputs ?s' ! 0) = tc" using slot(1) by simp
    with B have "\<forall>(t, g)\<in>set zs. \<not> kb_accepts t g 0 ?s'"
      by (auto simp: kb_accepts_def)
    moreover have "0 < length (inputs ?s')" using slot(2) len by simp
    ultimately have "transitions_shift zs ?s' = 0" by (intro transitions_shift_quiet)
    with B show "transitions_shift ((tc, gc) # zs) s = 1" by simp
  }
  {
    assume "\<forall>(t, g)\<in>set zs. pin_level g (pin (inputs s ! 0)) = r"
    then have "transitions_shift zs s \<le> (if state (inputs s ! 0) = r then 0 else 1)"
      using len by (intro transitions_shift_same_level)
    then show "transitions_shift zs s \<le> 1" by (simp split: if_splits)
  }
next
  assume k: "k < length (inputs s)"
  {
    assume "\<forall>c\<in>set rs. gate_millis c - debTimestamp (inputs s ! k) < debTime"
    then have "\<forall>c\<in>set rs. \<not> orig_accepts c k s"
      by (auto simp: orig_accepts_def)
    then show "transitions_orig k rs s = 0" using k by (intro transitions_orig_quiet)
  }
  {
    assume B: "state (inputs (fst (handleInput rc k (k = 0) (s, []))) ! k) \<noteq> state (inputs s ! k) \<and>
       (\<forall>c\<in>set rs. gate_millis c - commit_millis rc < debTime)"
    let ?s' = "fst (handleInput rc k (k = 0) (s, []))"
    note slot = handleInput_slot [OF k, of rc "k = 0" "[]"]
    from B slot(1) have acc: "orig_accepts rc k s" by (auto split: if_splits)
    then have "debTimestamp (inputs ?s' ! k) = commit_millis rc" using slot(1) by simp
    with B have "\<forall>c\<in>set rs. \<not> orig_accepts c k ?s'"
      by (auto simp: orig_accepts_def)
    moreover have "k < length (inputs ?s')" using slot(2) k by simp
    ultimately have "transitions_orig k rs ?s' = 0" by (intro transitions_orig_quiet)
    with B show "transitions_orig k (rc # rs) s = 1" by simp
  }
  {
    assume "\<forall>c\<in>set rs. gate_level c = l"
    then have "transitions_orig k rs s \<le> (if state (inputs s ! k) = l then 0 else 1)"
      using k by (intro transitions_orig_same_level)
    then show "transitions_orig k rs s \<le> 1" by (simp split: if_splits)
  }
qed

theorem debounce_runs_witness:
  "transitions_kb 1 bounce_kb kb_globals = 0 \<and>
   transitions_kb 1 ((10, 0xFFFFFF7F) # late_kb) kb_globals = 1 \<and>
   transitions_kb 1 held_kb kb_globals \<le> 1 \<and>
   transitions_gp 0 bounce_gp gp_init = 0 \<and>
   transitions_gp 0 ((9, 0x100) # late_gp) gp_init = 1 \<and>
   transitions_gp 0 held_gp gp_init \<le> 1 \<and>
   transitions_shift bounce_shift kb_globals = 0 \<and>
   transitions_shift ((10, 0xFFFFFFBF) # late_shift) kb_globals = 1 \<and>
   transitions_shift held_shift kb_globals \<le> 1 \<and>
   transitions_orig 1 bounce_orig kb_globals_orig = 0 \<and>
   transitions_orig 1 (reads_at 41 False # late_orig) kb_globals_orig = 1 \<and>
   transitions_orig 1 held_orig kb_globals_orig \<le> 1"
proof -
  have k0: "length (inputs kb_globals) = 26 \<and> 0 < (1::nat) \<and> (1::nat) < 26"
    by (simp add: length_kb_globals)
  have k1: "\<forall>(t, g)\<in>set bounce_kb. t - debTimestamp (inputs kb_globals ! 1) < DEBOUNCE_TIME"
    by code_simp
  have k2: "state (inputs (fst (handleButtons 10 0xFFFFFF7F kb_globals)) ! 1) \<noteq>
              state (inputs kb_globals ! 1) \<and>
            (\<forall>(t, g)\<in>set late_kb. t - 10 < DEBOUNCE_TIME)"
    by code_simp
  have k3: "\<forall>(t, g)\<in>set held_kb. pin_level g (pin (inputs kb_globals ! 1)) = False"
    by code_simp
  have ga: "length (states gp_init) = 26 \<and> length (timers gp_init) = 26 \<and> (0::nat) < 26"
    by (simp add: gp_init_def)
  have gb: "\<forall>(t, g)\<in>set bounce_gp. t - timers gp_init ! 0 < DEBOUNCE_MS"
    by code_simp
  have gc: "states (debounce_all 0x100 9 gp_init) ! 0 \<noteq> states gp_init ! 0 \<and>
            (\<forall>(t, g)\<in>set late_gp. t - 9 < DEBOUNCE_MS)"
    by code_simp
  have gd: "\<forall>(t, g)\<in>set held_gp. button_level g 0 = 1"
    by code_simp
  have h0: "0 < length (inputs kb_globals)" by (simp add: length_kb_globals)
  have h1: "\<forall>(t, g)\<in>set bounce_shift. t - debTimestamp (inputs kb_globals ! 0) < DEBOUNCE_TIME"
    by code_simp
  have h2: "state (inputs (fst (handleShiftButton 10 0xFFFFFFBF kb_globals)) ! 0) \<noteq>
              state (inputs kb_globals ! 0) \<and>
            (\<forall>(t, g)\<in>set late_shift. t - 10 < DEBOUNCE_TIME)"
    by code_simp
  have h3: "\<forall>(t, g)\<in>set held_shift. pin_level g (pin (inputs kb_globals ! 0)) = False"
    by code_simp
  have o0: "1 < length (inputs kb_globals_orig)" by (simp add: length_kb_globals_orig)
  have o1: "\<forall>c\<in>set bounce_orig. gate_millis c - debTimestamp (inputs kb_globals_orig ! 1) < debTime"
    by code_simp
  have o2: "state (inputs (fst (handleInput (reads_at 41 False) 1 ((1::nat) = 0)
                (kb_globals_orig, []))) ! 1) \<noteq> state (inputs kb_globals_orig ! 1) \<and>
            (\<forall>c\<in>set late_orig. gate_millis c - commit_millis (reads_at 41 False) < debTime)"
    by code_simp
  have o3: "\<forall>c\<in>set held_orig. gate_level c = False"
    by code_simp
  note A = debounce_runs [where s = kb_globals and i = 1 and xs = bounce_kb and p = gp_init
      and j = 0 and ys = bounce_gp and zs = bounce_shift]
  note B = debounce_runs [where s = kb_globals and i = 1 and xs = late_kb and ta = 10
      and ga = "0xFFFFFF7F" and p = gp_init and j = 0 and ys = late_gp and tb = 9
      and gb = "0x100" and zs = late_shift and tc = 10 and gc = "0xFFFFFFBF"]
  note C = debounce_runs [where s = kb_globals and i = 1 and xs = held_kb and r = False
      and p = gp_init and j = 0 and ys = held_gp and q = 1 and zs = held_shift]
  note D = debounce_runs [where s = kb_globals_orig and k = 1 and rs = bounce_orig]
  note E = debounce_runs [where s = kb_globals_orig and k = 1 and rs = late_orig
      and rc = "reads_at 41 False"]
  note F = debounce_runs [where s = kb_globals_orig and k = 1 and rs = held_orig and l = False]
  have "transitions_kb 1 bounce_kb kb_globals = 0"
    by (rule A [THEN conjunct1, THEN mp, OF k0, THEN conjunct1, THEN mp, OF k1])
  moreover have "transitions_kb 1 ((10, 0xFFFFFF7F) # late_kb) kb_globals = 1"
    by (rule B [THEN conjunct1, THEN mp, OF k0, THEN conjunct2, THEN conjunct1, THEN mp, OF k2])
  moreover have "transitions_kb 1 held_kb kb_globals \<le> 1"
    by (rule C [THEN conjunct1, THEN mp, OF k0, THEN conjunct2, THEN conjunct2, THEN mp, OF k3])
  moreover have "transitions_gp 0 bounce_gp gp_init = 0"
    by (rule A [THEN conjunct2, THEN conjunct1, THEN mp, OF ga, THEN conjunct1, THEN mp, OF gb])
  moreover have "transitions_gp 0 ((9, 0x100) # late_gp) gp_init = 1"
    by (rule B [THEN conjunct2, THEN conjunct1, THEN mp, OF ga, THEN conjunct2, THEN conjunct1,
          THEN mp, OF gc])
  moreover have "transitions_gp 0 held_gp gp_init \<le> 1"
    by (rule C [THEN conjunct2, THEN conjunct1, THEN mp, OF ga, THEN conjunct2, THEN conjunct2,
          THEN mp, OF gd])
  moreover have "transitions_shift bounce_shift kb_globals = 0"
    by (rule A [THEN conjunct2, THEN conjunct2, THEN conjunct1, THEN mp, OF h0, THEN conjunct1,
          THEN mp, OF h1])
  moreover have "transitions_shift ((10, 0xFFFFFFBF) # late_shift) kb_globals = 1"
    by (rule B [THEN conjunct2, THEN conjunct2, THEN conjunct1, THEN mp, OF h0, THEN conjunct2,
          THEN conjunct1, THEN mp, OF h2])
  moreover have "transitions_shift held_shift kb_globals \<le> 1"
    by (rule C [THEN conjunct2, THEN conjunct2, THEN conjunct1, THEN mp, OF h0, THEN conjunct2,
          THEN conjunct2, THEN mp, OF h3])
  moreover have "transitions_orig 1 bounce_orig kb_globals_orig = 0"
    by (rule D [THEN conjunct2, THEN conjunct2, THEN conjunct2, THEN mp, OF o0, THEN conjunct1,
          THEN mp, OF o1])
  moreover have "transitions_orig 1 (reads_at 41 False # late_orig) kb_globals_orig = 1"
    by (rule E [THEN conjunct2, THEN conjunct2, THEN conjunct2, THEN mp, OF o0, THEN conjunct2,
          THEN conjunct1, THEN mp, OF o2])
  moreover have "transitions_orig 1 held_orig kb_globals_orig \<le> 1"
    by (rule F [THEN conjunct2, THEN conjunct2, THEN conjunct2, THEN mp, OF o0, THEN conjunct2,
          THEN conjunct2, THEN mp, OF o3])
  ultimately show ?thesis by (intro conjI)
qed

subsection \<open>Shift layer\<close>

text \<open>
  C3 (as amended). On a confirmed pressed-edge of a non-shift input \<open>i\<close>: the refactored
  sketch presses the shifted code and sets \<open>startBlock\<close> if the shift input is held (low),
  and presses the primary code and leaves \<open>startBlock\<close> as it is otherwise. The original
  sketch resolves the code the same way, presses it only when it is above 32, and never
  changes \<open>startBlock\<close> for a non-shift input.
\<close>

theorem shifted_press:
  "(0 < i \<and> i < length (inputs s) \<and> kb_accepts millisNow gpioStates i s \<and>
    \<not> pin_level gpioStates (pin (inputs s ! i)) \<longrightarrow>
      snd (handleButton millisNow gpioStates i (s, out)) =
        out @ [Press (if state (inputs s ! 0) then btn (inputs s ! i)
                      else btn_shift (inputs s ! i))] \<and>
      startBlock (fst (handleButton millisNow gpioStates i (s, out))) =
        (if state (inputs s ! 0) then startBlock s else True)) \<and>
   (0 < i \<and> i < length (inputs s) \<and> orig_accepts r i s \<and> \<not> commit_level r \<longrightarrow>
      snd (handleInput r i False (s, out)) =
        (if 32 < resolved_code s i then out @ [Press (resolved_code s i)] else out) \<and>
      startBlock (fst (handleInput r i False (s, out))) = startBlock s)"
proof (intro conjI impI)
  assume A: "0 < i \<and> i < length (inputs s) \<and> kb_accepts millisNow gpioStates i s \<and>
    \<not> pin_level gpioStates (pin (inputs s ! i))"
  then have eq: "handleButton millisNow gpioStates i (s, out) =
       (s\<lparr>inputs := (inputs s)[i := (inputs s ! i)
              \<lparr>state := pin_level gpioStates (pin (inputs s ! i)), debTimestamp := millisNow\<rparr>],
          startBlock := startBlock s \<or>
              (\<not> state (inputs s ! 0) \<and> \<not> pin_level gpioStates (pin (inputs s ! i)))\<rparr>,
        out @ [if pin_level gpioStates (pin (inputs s ! i))
               then Release (resolved_code s i) else Press (resolved_code s i)])"
    using handleButton_eq [of i s millisNow gpioStates out] by simp
  show "snd (handleButton millisNow gpioStates i (s, out)) =
        out @ [Press (if state (inputs s ! 0) then btn (inputs s ! i)
                      else btn_shift (inputs s ! i))]"
    unfolding eq using A by (simp add: resolved_code_def)
  show "startBlock (fst (handleButton millisNow gpioStates i (s, out))) =
        (if state (inputs s ! 0) then startBlock s else True)"
    unfolding eq using A by simp
next
  assume A: "0 < i \<and> i < length (inputs s) \<and> orig_accepts r i s \<and> \<not> commit_level r"
  note eq = handleInput_eq [of i s r False out]
  show "snd (handleInput r i False (s, out)) =
        (if 32 < resolved_code s i then out @ [Press (resolved_code s i)] else out)"
    using eq A by (simp add: resolved_code_def Let_def)
  show "startBlock (fst (handleInput r i False (s, out))) = startBlock s"
    using eq A by simp
qed

theorem shifted_press_witness:
  "snd (handleButton 40 0xFFFFFF3F 1 (kb_shift_down, [])) = [Press KEY_ESC] \<and>
   startBlock (fst (handleButton 40 0xFFFFFF3F 1 (kb_shift_down, []))) \<and>
   snd (handleInput (reads_at 41 False) 1 False (orig_idle, [])) = [Press 0x36] \<and>
   \<not> startBlock (fst (handleInput (reads_at 41 False) 1 False (orig_idle, [])))"
proof -
  have a: "0 < (1::nat) \<and> 1 < length (inputs kb_shift_down) \<and>
      kb_accepts 40 0xFFFFFF3F 1 kb_shift_down \<and>
      \<not> pin_level 0xFFFFFF3F (pin (inputs kb_shift_down ! 1))"
    by code_simp
  have b: "0 < (1::nat) \<and> 1 < length (inputs orig_idle) \<and>
      orig_accepts (reads_at 41 False) 1 orig_idle \<and> \<not> commit_level (reads_at 41 False)"
    by code_simp
  have c: "\<not> state (inputs kb_shift_down ! 0)" "btn_shift (inputs kb_shift_down ! 1) = KEY_ESC"
    "resolved_code orig_idle 1 = 0x36" "\<not> startBlock orig_idle"
    by code_simp+
  from shifted_press [where i = 1 and s = kb_shift_down and millisNow = 40
      and gpioStates = "0xFFFFFF3F" and out = "[]"] a c
  have "snd (handleButton 40 0xFFFFFF3F 1 (kb_shift_down, [])) = [Press KEY_ESC]"
    "startBlock (fst (handleButton 40 0xFFFFFF3F 1 (kb_shift_down, [])))"
    by simp_all
  moreover from shifted_press [where i = 1 and s = orig_idle and r = "reads_at 41 False"
      and out = "[]"] b c
  have "snd (handleInput (reads_at 41 False) 1 False (orig_idle, [])) = [Press 0x36]"
    "\<not> startBlock (fst (handleInput (reads_at 41 False) 1 False (orig_idle, [])))"
    by simp_all
  ultimately show ?thesis by simp
qed

text \<open>Where the claim as stated fails, in the original sketch: with the shift input held
  since power-up, the press of entry 1 issues its shifted code but \<open>startBlock\<close> stays
  false; and the confirmed press of entry 12, whose code is 32, issues nothing.\<close>

theorem shifted_press_counterexample:
  "\<not> state (inputs orig_held ! 0) \<and>
   orig_accepts (reads_at 41 False) 1 orig_held \<and>
   snd (handleInput (reads_at 41 False) 1 False (orig_held, [])) = [Press 0x36] \<and>
   \<not> startBlock (fst (handleInput (reads_at 41 False) 1 False (orig_held, []))) \<and>
   state (inputs orig_idle ! 0) \<and>
   orig_accepts (reads_at 41 False) 12 orig_idle \<and>
   \<not> state (inputs (fst (handleInput (reads_at 41 False) 12 False (orig_idle, []))) ! 12) \<and>
   btn (inputs orig_idle ! 12) = 0x20 \<and>
   snd (handleInput (reads_at 41 False) 12 False (orig_idle, [])) = []"
  by code_simp

text \<open>
  C4 (as amended). On a confirmed released-edge of a non-shift input \<open>i\<close> the code released
  is the one that goes with the level of the shift input at that moment: the shifted
  code if the shift input is low, the primary code otherwise; the step has no record of
  the code pressed earlier. The refactored sketch always issues this release and leaves
  \<open>startBlock\<close> as it is; the original sketch issues it only when the code is above 32.
\<close>

theorem release_resolution:
  "(0 < i \<and> i < length (inputs s) \<and> kb_accepts millisNow gpioStates i s \<and>
    pin_level gpioStates (pin (inputs s ! i)) \<longrightarrow>
      snd (handleButton millisNow gpioStates i (s, out)) =
        out @ [Release (if state (inputs s ! 0) then btn (inputs s ! i)
                        else btn_shift (inputs s ! i))] \<and>
      startBlock (fst (handleButton millisNow gpioStates i (s, out))) = startBlock s) \<and>
   (0 < i \<and> i < length (inputs s) \<and> orig_accepts r i s \<and> commit_level r \<longrightarrow>
      snd (handleInput r i False (s, out)) =
        (if 32 < resolved_code s i then out @ [Release (resolved_code s i)] else out))"
proof (intro conjI impI)
  assume A: "0 < i \<and> i < length (inputs s) \<and> kb_accepts millisNow gpioStates i s \<and>
    pin_level gpioStates (pin (inputs s ! i))"
  then have eq: "handleButton millisNow gpioStates i (s, out) =
       (s\<lparr>inputs := (inputs s)[i := (inputs s ! i)
              \<lparr>state := pin_level gpioStates (pin (inputs s ! i)), debTimestamp := millisNow\<rparr>],
          startBlock := startBlock s \<or>
              (\<not> state (inputs s ! 0) \<and> \<not> pin_level gpioStates (pin (inputs s ! i)))\<rparr>,
        out @ [if pin_level gpioStates (pin (inputs s ! i))
               then Release (resolved_code s i) else Press (resolved_code s i)])"
    using handleButton_eq [of i s millisNow gpioStates out] by simp
  show "snd (handleButton millisNow gpioStates i (s, out)) =
        out @ [Release (if state (inputs s ! 0) then btn (inputs s ! i)
                        else btn_shift (inputs s ! i))]"
    unfolding eq using A by (simp add: resolved_code_def)
  show "startBlock (fst (handleButton millisNow gpioStates i (s, out))) = startBlock s"
    unfolding eq using A by simp
next
  assume A: "0 < i \<and> i < length (inputs s) \<and> orig_accepts r i s \<and> commit_level r"
  note eq = handleInput_eq [of i s r False out]
  show "snd (handleInput r i False (s, out)) =
        (if 32 < resolved_code s i then out @ [Release (resolved_code s i)] else out)"
    using eq A by (simp add: resolved_code_def Let_def)
qed

text \<open>In the witness, entry 1 of the refactored sketch was pressed under shift (code
  \<open>KEY_ESC\<close>); released under shift it releases \<open>KEY_ESC\<close>, released after the shift
  button went up it releases its primary code. In the original sketch entry 1 is
  released with the shift input high.\<close>

theorem release_resolution_witness:
  "snd (handleButton 60 0xFFFFFFBF 1 (kb_shift_action, [])) = [Release KEY_ESC] \<and>
   snd (handleButton 80 0xFFFFFFFF 1 (kb_shift_released, [])) = [Release 0x32] \<and>
   snd (handleInput (reads_at 90 True) 1 False
         (fst (handleInput (reads_at 41 False) 1 False (orig_idle, [])), [])) = [Release 0x36]"
proof -
  let ?o = "fst (handleInput (reads_at 41 False) 1 False (orig_idle, []))"
  have a: "0 < (1::nat) \<and> 1 < length (inputs kb_shift_action) \<and>
      kb_accepts 60 0xFFFFFFBF 1 kb_shift_action \<and>
      pin_level 0xFFFFFFBF (pin (inputs kb_shift_action ! 1))"
    "0 < (1::nat) \<and> 1 < length (inputs kb_shift_released) \<and>
      kb_accepts 80 0xFFFFFFFF 1 kb_shift_released \<and>
      pin_level 0xFFFFFFFF (pin (inputs kb_shift_released ! 1))"
    by code_simp+
  have b: "0 < (1::nat) \<and> 1 < length (inputs ?o) \<and>
      orig_accepts (reads_at 90 True) 1 ?o \<and> commit_level (reads_at 90 True)"
    by code_simp
  have c: "\<not> state (inputs kb_shift_action ! 0)" "btn_shift (inputs kb_shift_action ! 1) = KEY_ESC"
    "state (inputs kb_shift_released ! 0)" "btn (inputs kb_shift_released ! 1) = 0x32"
    "resolved_code ?o 1 = 0x36"
    by code_simp+
  from release_resolution [where i = 1 and s = kb_shift_action and millisNow = 60
      and gpioStates = "0xFFFFFFBF" and out = "[]"] a(1) c
  have "snd (handleButton 60 0xFFFFFFBF 1 (kb_shift_action, [])) = [Release KEY_ESC]"
    by simp
  moreover from release_resolution [where i = 1 and s = kb_shift_released and millisNow = 80
      and gpioStates = "0xFFFFFFFF" and out = "[]"] a(2) c
  have "snd (handleButton 80 0xFFFFFFFF 1 (kb_shift_released, [])) = [Release 0x32]"
    by simp
  moreover from release_resolution [where i = 1 and s = ?o and r = "reads_at 90 True"
      and out = "[]"] b c
  have "snd (handleInput (reads_at 90 True) 1 False (?o, [])) = [Release 0x36]"
    by simp
  ultimately show ?thesis by simp
qed

text \<open>Where the claim as stated fails: in the original sketch the confirmed release of
  entry 12 (primary and shifted code 32) issues no key event.\<close>

theorem release_resolution_counterexample:
  "\<not> state (inputs orig_b3_down ! 12) \<and>
   orig_accepts (reads_at 41 True) 12 orig_b3_down \<and>
   state (inputs (fst (handleInput (reads_at 41 True) 12 False (orig_b3_down, []))) ! 12) \<and>
   btn (inputs orig_b3_down ! 12) = 0x20 \<and> btn_shift (inputs orig_b3_down ! 12) = 0x20 \<and>
   snd (handleInput (reads_at 41 True) 12 False (orig_b3_down, [])) = []"
  by code_simp

lemma fold_handleButton_quiet:
  assumes "set js \<subseteq> {1..<length (inputs s)}" "\<forall>i\<in>set js. \<not> kb_accepts t g i s"
  shows "fold (handleButton t g) js (s, out) = (s, out)"
  using assms
proof (induction js)
  case Nil
  then show ?case by simp
next
  case (Cons j js)
  then have "0 < j" "j < length (inputs s)" "\<not> kb_accepts t g j s" by auto
  then have "handleButton t g j (s, out) = (s, out)"
    using handleButton_eq [of j s t g out] by simp
  with Cons show ?case by simp
qed

lemma handleButtons_quiet:
  assumes "length (inputs s) = 26" "\<forall>i. 0 < i \<and> i < 26 \<longrightarrow> \<not> kb_accepts t g i s"
  shows "handleButtons t g s = (s, [])"
  unfolding handleButtons_def SW_INPUTS_def
  using assms by (intro fold_handleButton_quiet) auto

text \<open>
  C5 (as amended). Refactored sketch: a confirmed pressed-edge of the shift button issues
  no key event; on its confirmed released-edge, if \<open>startBlock\<close> is false (no other input
  was pressed under shift during the hold) exactly a press followed by a release of the
  shift button's primary code is issued, and if \<open>startBlock\<close> is true nothing is issued;
  in both cases \<open>startBlock\<close> is false afterwards. Hence press-then-release of the shift
  button, with no other input accepted in between, issues exactly that one pair.
  Original sketch: the shift input is an ordinary key; its pressed-edge presses its
  primary code and sets \<open>startBlock\<close>, its released-edge releases the code and clears
  \<open>startBlock\<close> (both events only for a code above 32), whatever happened during the hold.
\<close>

theorem shift_release:
  "(0 < length (inputs s) \<and> kb_accepts millisNow gpioStates 0 s \<longrightarrow>
      snd (handleShiftButton millisNow gpioStates s) =
        (if pin_level gpioStates (pin (inputs s ! 0)) \<and> \<not> startBlock s
         then [Press (btn (inputs s ! 0)), Release (btn (inputs s ! 0))] else []) \<and>
      startBlock (fst (handleShiftButton millisNow gpioStates s)) =
        (startBlock s \<and> \<not> pin_level gpioStates (pin (inputs s ! 0)))) \<and>
   (length (inputs s) = 26 \<and> \<not> startBlock s \<and>
    kb_accepts ta ga 0 s \<and> \<not> pin_level ga (pin (inputs s ! 0)) \<and>
    (\<forall>i. 0 < i \<and> i < 26 \<longrightarrow> \<not> kb_accepts tb gb i (fst (handleShiftButton ta ga s))) \<and>
    kb_accepts tc gc 0 (fst (handleShiftButton ta ga s)) \<and> pin_level gc (pin (inputs s ! 0)) \<longrightarrow>
      snd (handleShiftButton ta ga s) @
      snd (handleButtons tb gb (fst (handleShiftButton ta ga s))) @
      snd (handleShiftButton tc gc (fst (handleButtons tb gb (fst (handleShiftButton ta ga s))))) =
        [Press (btn (inputs s ! 0)), Release (btn (inputs s ! 0))]) \<and>
   (0 < length (inputs s) \<and> orig_accepts r 0 s \<longrightarrow>
      snd (handleInput r 0 True (s, out)) =
        (if 32 < btn (inputs s ! 0)
         then out @ [if commit_level r then Release (btn (inputs s ! 0))
                     else Press (btn (inputs s ! 0))]
         else out) \<and>
      startBlock (fst (handleInput r 0 True (s, out))) = (\<not> commit_level r))"
proof (intro conjI impI)
  assume A: "0 < length (inputs s) \<and> kb_accepts millisNow gpioStates 0 s"
  note eq = handleShiftButton_eq [of s millisNow gpioStates]
  show "snd (handleShiftButton millisNow gpioStates s) =
        (if pin_level gpioStates (pin (inputs s ! 0)) \<and> \<not> startBlock s
         then [Press (btn (inputs s ! 0)), Release (btn (inputs s ! 0))] else [])"
    using eq A by auto
  show "startBlock (fst (handleShiftButton millisNow gpioStates s)) =
        (startBlock s \<and> \<not> pin_level gpioStates (pin (inputs s ! 0)))"
    using eq A by auto
next
  assume A: "length (inputs s) = 26 \<and> \<not> startBlock s \<and>
    kb_accepts ta ga 0 s \<and> \<not> pin_level ga (pin (inputs s ! 0)) \<and>
    (\<forall>i. 0 < i \<and> i < 26 \<longrightarrow> \<not> kb_accepts tb gb i (fst (handleShiftButton ta ga s))) \<and>
    kb_accepts tc gc 0 (fst (handleShiftButton ta ga s)) \<and> pin_level gc (pin (inputs s ! 0))"
  let ?s1 = "fst (handleShiftButton ta ga s)"
  have len: "0 < length (inputs s)" using A by simp
  have s1: "handleShiftButton ta ga s =
       (s\<lparr>inputs := (inputs s)[0 := (inputs s ! 0)
              \<lparr>state := pin_level ga (pin (inputs s ! 0)), debTimestamp := ta\<rparr>],
          startBlock := startBlock s \<and> \<not> pin_level ga (pin (inputs s ! 0))\<rparr>, [])"
    using handleShiftButton_eq [OF len, of ta ga] A by simp
  have len1: "length (inputs ?s1) = 26" "\<not> startBlock ?s1"
    "pin (inputs ?s1 ! 0) = pin (inputs s ! 0)" "btn (inputs ?s1 ! 0) = btn (inputs s ! 0)"
    using A len by (simp_all add: s1)
  have quiet: "handleButtons tb gb ?s1 = (?s1, [])"
    using len1(1) A by (intro handleButtons_quiet) simp_all
  have "snd (handleShiftButton tc gc ?s1) =
      [Press (btn (inputs s ! 0)), Release (btn (inputs s ! 0))]"
    using handleShiftButton_eq [of ?s1 tc gc] len1 A by simp
  then show "snd (handleShiftButton ta ga s) @
      snd (handleButtons tb gb (fst (handleShiftButton ta ga s))) @
      snd (handleShiftButton tc gc (fst (handleButtons tb gb (fst (handleShiftButton ta ga s))))) =
        [Press (btn (inputs s ! 0)), Release (btn (inputs s ! 0))]"
    unfolding quiet by (simp add: s1)
next
  assume A: "0 < length (inputs s) \<and> orig_accepts r 0 s"
  note eq = handleInput_eq [of 0 s r True out]
  show "snd (handleInput r 0 True (s, out)) =
        (if 32 < btn (inputs s ! 0)
         then out @ [if commit_level r then Release (btn (inputs s ! 0))
                     else Press (btn (inputs s ! 0))]
         else out)"
    using eq A by (simp add: Let_def)
  show "startBlock (fst (handleInput r 0 True (s, out))) = (\<not> commit_level r)"
    using eq A by simp
qed

theorem shift_release_witness:
  "snd (handleShiftButton 60 0xFFFFFFFF kb_shift_action) = [] \<and>
   \<not> startBlock (fst (handleShiftButton 60 0xFFFFFFFF kb_shift_action)) \<and>
   snd (handleShiftButton 20 0xFFFFFFBF kb_idle) @
   snd (handleButtons 20 0xFFFFFFBF (fst (handleShiftButton 20 0xFFFFFFBF kb_idle))) @
   snd (handleShiftButton 60 0xFFFFFFFF
         (fst (handleButtons 20 0xFFFFFFBF (fst (handleShiftButton 20 0xFFFFFFBF kb_idle))))) =
     [Press 0x31, Release 0x31] \<and>
   snd (handleInput (reads_at 41 False) 0 True (orig_idle, [])) = [Press 0x35] \<and>
   startBlock (fst (handleInput (reads_at 41 False) 0 True (orig_idle, [])))"
proof -
  have a: "0 < length (inputs kb_shift_action) \<and> kb_accepts 60 0xFFFFFFFF 0 kb_shift_action"
    "pin_level 0xFFFFFFFF (pin (inputs kb_shift_action ! 0))" "startBlock kb_shift_action"
    by code_simp+
  have "\<forall>i\<in>set [1..<26]. \<not> kb_accepts 20 0xFFFFFFBF i (fst (handleShiftButton 20 0xFFFFFFBF kb_idle))"
    by code_simp
  then have q: "\<forall>i. 0 < i \<and> i < 26 \<longrightarrow>
      \<not> kb_accepts 20 0xFFFFFFBF i (fst (handleShiftButton 20 0xFFFFFFBF kb_idle))"
    by auto
  have b: "length (inputs kb_idle) = 26 \<and> \<not> startBlock kb_idle \<and>
      kb_accepts 20 0xFFFFFFBF 0 kb_idle \<and> \<not> pin_level 0xFFFFFFBF (pin (inputs kb_idle ! 0))"
    "kb_accepts 60 0xFFFFFFFF 0 (fst (handleShiftButton 20 0xFFFFFFBF kb_idle)) \<and>
      pin_level 0xFFFFFFFF (pin (inputs kb_idle ! 0))"
    "btn (inputs kb_idle ! 0) = 0x31"
    by code_simp+
  have c: "0 < length (inputs orig_idle) \<and> orig_accepts (reads_at 41 False) 0 orig_idle"
    "btn (inputs orig_idle ! 0) = 0x35" "\<not> commit_level (reads_at 41 False)"
    by code_simp+
  from shift_release [where s = kb_shift_action and millisNow = 60 and gpioStates = "0xFFFFFFFF"] a
  have "snd (handleShiftButton 60 0xFFFFFFFF kb_shift_action) = []"
    "\<not> startBlock (fst (handleShiftButton 60 0xFFFFFFFF kb_shift_action))"
    by simp_all
  moreover from shift_release [where s = kb_idle and ta = 20 and ga = "0xFFFFFFBF"
      and tb = 20 and gb = "0xFFFFFFBF" and tc = 60 and gc = "0xFFFFFFFF",
      THEN conjunct2, THEN conjunct1] b q
  have "snd (handleShiftButton 20 0xFFFFFFBF kb_idle) @
   snd (handleButtons 20 0xFFFFFFBF (fst (handleShiftButton 20 0xFFFFFFBF kb_idle))) @
   snd (handleShiftButton 60 0xFFFFFFFF
         (fst (handleButtons 20 0xFFFFFFBF (fst (handleShiftButton 20 0xFFFFFFBF kb_idle))))) =
     [Press 0x31, Release 0x31]"
    by (simp only: b(3)) blast
  moreover from shift_release [where s = orig_idle and r = "reads_at 41 False" and out = "[]"] c
  have "snd (handleInput (reads_at 41 False) 0 True (orig_idle, [])) = [Press 0x35]"
   "startBlock (fst (handleInput (reads_at 41 False) 0 True (orig_idle, [])))"
    by simp_all
  ultimately show ?thesis by simp
qed

text \<open>Where the claim as stated fails, in the original sketch: the released-edge of a
  tapped shift input issues only the release (the press went out at the pressed-edge),
  and after another input was pressed during the hold the released-edge of the shift
  input still issues its release.\<close>

theorem shift_release_counterexample:
  "snd (handleInput (reads_at 41 False) 0 True (orig_idle, [])) = [Press 0x35] \<and>
   orig_accepts (reads_at 100 True) 0 orig_shift_down \<and>
   snd (handleInput (reads_at 100 True) 0 True (orig_shift_down, [])) = [Release 0x35] \<and>
   \<not> state (inputs orig_shift_down ! 0) \<and>
   snd (handleInput (reads_at 60 False) 1 False (orig_shift_down, [])) = [Press 0x36] \<and>
   orig_accepts (reads_at 100 True) 0 orig_shift_action \<and>
   snd (handleInput (reads_at 100 True) 0 True (orig_shift_action, [])) = [Release 0x35]"
  by code_simp

subsection \<open>Start-up\<close>

lemma fold_setup_kb:
  assumes "distinct js" "set js \<subseteq> {..<length (inputs s)}"
  shows "length (inputs (fold (\<lambda>i s. s\<lparr>inputs := (inputs s)[i := (inputs s ! i)\<lparr>state := rd i\<rparr>]\<rparr>) js s))
           = length (inputs s) \<and>
         startBlock (fold (\<lambda>i s. s\<lparr>inputs := (inputs s)[i := (inputs s ! i)\<lparr>state := rd i\<rparr>]\<rparr>) js s)
           = startBlock s \<and>
         inputs (fold (\<lambda>i s. s\<lparr>inputs := (inputs s)[i := (inputs s ! i)\<lparr>state := rd i\<rparr>]\<rparr>) js s) ! k
           = (if k \<in> set js then (inputs s ! k)\<lparr>state := rd k\<rparr> else inputs s ! k)"
  using assms
proof (induction js arbitrary: s)
  case Nil
  then show ?case by simp
next
  case (Cons j js)
  let ?s1 = "s\<lparr>inputs := (inputs s)[j := (inputs s ! j)\<lparr>state := rd j\<rparr>]\<rparr>"
  have j: "j < length (inputs s)" "j \<notin> set js" using Cons.prems by auto
  have "distinct js" "set js \<subseteq> {..<length (inputs ?s1)}" using Cons.prems by auto
  note IH = Cons.IH [OF this]
  show ?case
  proof (cases "k = j")
    case True
    with IH j show ?thesis by simp
  next
    case False
    with IH j show ?thesis by simp
  qed
qed

lemma setup_kb_slot:
  assumes "length (inputs s) = 26" "k < 26"
  shows "inputs (setup_kb rd s) ! k = (inputs s ! k)\<lparr>state := rd k\<rparr>"
    and "length (inputs (setup_kb rd s)) = 26"
    and "startBlock (setup_kb rd s) = startBlock s"
proof -
  have "set [0..<26] \<subseteq> {..<length (inputs s)}" using assms by auto
  then have *: "length (inputs (fold (\<lambda>i s. s\<lparr>inputs := (inputs s)[i := (inputs s ! i)\<lparr>state := rd i\<rparr>]\<rparr>) [0..<26] s))
           = length (inputs s) \<and>
         startBlock (fold (\<lambda>i s. s\<lparr>inputs := (inputs s)[i := (inputs s ! i)\<lparr>state := rd i\<rparr>]\<rparr>) [0..<26] s)
           = startBlock s \<and>
         inputs (fold (\<lambda>i s. s\<lparr>inputs := (inputs s)[i := (inputs s ! i)\<lparr>state := rd i\<rparr>]\<rparr>) [0..<26] s) ! k
           = (if k \<in> set [0..<26] then (inputs s ! k)\<lparr>state := rd k\<rparr> else inputs s ! k)"
    by (intro fold_setup_kb) simp_all
  have k: "k \<in> set [0..<26]" using assms by simp
  show "inputs (setup_kb rd s) ! k = (inputs s ! k)\<lparr>state := rd k\<rparr>"
    using * k unfolding setup_kb_def SW_INPUTS_def by presburger
  show "length (inputs (setup_kb rd s)) = 26"
    using * assms(1) unfolding setup_kb_def SW_INPUTS_def by presburger
  show "startBlock (setup_kb rd s) = startBlock s"
    using * unfolding setup_kb_def SW_INPUTS_def by presburger
qed

lemma fold_setup_orig:
  assumes "distinct js" "set js \<subseteq> {..<length (inputs s)}"
  shows "length (inputs (fold (\<lambda>i s. s\<lparr>inputs := (inputs s)[i :=
            (inputs s ! i)\<lparr>state := fst (rd i), debTimestamp := snd (rd i)\<rparr>]\<rparr>) js s))
           = length (inputs s) \<and>
         inputs (fold (\<lambda>i s. s\<lparr>inputs := (inputs s)[i :=
            (inputs s ! i)\<lparr>state := fst (rd i), debTimestamp := snd (rd i)\<rparr>]\<rparr>) js s) ! k
           = (if k \<in> set js then (inputs s ! k)\<lparr>state := fst (rd k), debTimestamp := snd (rd k)\<rparr>
              else inputs s ! k)"
  using assms
proof (induction js arbitrary: s)
  case Nil
  then show ?case by simp
next
  case (Cons j js)
  let ?s1 = "s\<lparr>inputs := (inputs s)[j :=
            (inputs s ! j)\<lparr>state := fst (rd j), debTimestamp := snd (rd j)\<rparr>]\<rparr>"
  have j: "j < length (inputs s)" "j \<notin> set js" using Cons.prems by auto
  have "distinct js" "set js \<subseteq> {..<length (inputs ?s1)}" using Cons.prems by auto
  note IH = Cons.IH [OF this]
  show ?case
  proof (cases "k = j")
    case True
    with IH j show ?thesis by simp
  next
    case False
    with IH j show ?thesis by simp
  qed
qed

lemma setup_orig_slot:
  assumes "length (inputs s) = 26" "k < 26"
  shows "inputs (setup_orig rd s) ! k =
           (inputs s ! k)\<lparr>state := fst (rd k), debTimestamp := snd (rd k)\<rparr>"
    and "length (inputs (setup_orig rd s)) = 26"
proof -
  have "set [0..<26] \<subseteq> {..<length (inputs s)}" using assms by auto
  then have *: "length (inputs (fold (\<lambda>i s. s\<lparr>inputs := (inputs s)[i :=
            (inputs s ! i)\<lparr>state := fst (rd i), debTimestamp := snd (rd i)\<rparr>]\<rparr>) [0..<26] s))
           = length (inputs s) \<and>
         inputs (fold (\<lambda>i s. s\<lparr>inputs := (inputs s)[i :=
            (inputs s ! i)\<lparr>state := fst (rd i), debTimestamp := snd (rd i)\<rparr>]\<rparr>) [0..<26] s) ! k
           = (if k \<in> set [0..<26] then (inputs s ! k)\<lparr>state := fst (rd k), debTimestamp := snd (rd k)\<rparr>
              else inputs s ! k)"
    by (intro fold_setup_orig) simp_all
  have k: "k \<in> set [0..<26]" using assms by simp
  show "inputs (setup_orig rd s) ! k =
           (inputs s ! k)\<lparr>state := fst (rd k), debTimestamp := snd (rd k)\<rparr>"
    using * k unfolding setup_orig_def SW_INPUTS_def by presburger
  show "length (inputs (setup_orig rd s)) = 26"
    using * assms(1) unfolding setup_orig_def SW_INPUTS_def by presburger
qed

text \<open>
  C9 (as amended). The two keyboard sketches store, in \<open>setup()\<close>, the level read from
  each input's pin as its confirmed state; a first pass in which an input's pin still
  reads that level leaves the input as it is, and if all pins read as at setup no key
  event is issued. The gamepad sketch does not read the pins at start: every confirmed
  state starts as the constant 0 (released), so a first pass confirms nothing for a
  button that reads released.
\<close>

theorem startup_states:
  "(length (inputs s) = 26 \<and> i < 26 \<longrightarrow>
      state (inputs (setup_kb rd s) ! i) = rd i \<and>
      (0 < i \<and> pin_level g (pin (inputs s ! i)) = rd i \<longrightarrow>
         inputs (fst (handleButtons t g (setup_kb rd s))) ! i = inputs (setup_kb rd s) ! i) \<and>
      (pin_level g (pin (inputs s ! 0)) = rd 0 \<longrightarrow>
         handleShiftButton t g (setup_kb rd s) = (setup_kb rd s, [])) \<and>
      ((\<forall>k. 0 < k \<and> k < 26 \<longrightarrow> pin_level g (pin (inputs s ! k)) = rd k) \<longrightarrow>
         handleButtons t g (setup_kb rd s) = (setup_kb rd s, []))) \<and>
   (length (inputs s) = 26 \<and> i < 26 \<longrightarrow>
      state (inputs (setup_orig rdo s) ! i) = fst (rdo i) \<and>
      (gate_level r = fst (rdo i) \<longrightarrow>
         handleInput r i isShift (setup_orig rdo s, out) = (setup_orig rdo s, out))) \<and>
   (j < 26 \<longrightarrow>
      states gp_init ! j = 0 \<and>
      (button_level gpio_now j = 0 \<longrightarrow> debounce_button gpio_now time_now j gp_init = gp_init))"
proof (intro conjI impI)
  assume A: "length (inputs s) = 26 \<and> i < 26"
  then have len: "length (inputs s) = 26" and i: "i < 26" by simp_all
  let ?s0 = "setup_kb rd s"
  note S = setup_kb_slot [OF len, of _ rd]
  show "state (inputs ?s0 ! i) = rd i" using S(1) [OF i] by simp
  {
    assume B: "0 < i \<and> pin_level g (pin (inputs s ! i)) = rd i"
    then have "\<not> kb_accepts t g i ?s0" using S(1) [OF i] by (simp add: kb_accepts_def)
    then show "inputs (fst (handleButtons t g ?s0)) ! i = inputs ?s0 ! i"
      using handleButtons_slot(1) [of ?s0 i t g] S(2) [OF i] B i by simp
  }
  {
    assume B: "pin_level g (pin (inputs s ! 0)) = rd 0"
    then have "\<not> kb_accepts t g 0 ?s0" using S(1) [of 0] by (simp add: kb_accepts_def)
    then show "handleShiftButton t g ?s0 = (?s0, [])"
      using handleShiftButton_eq [of ?s0 t g] S(2) [OF i] by simp
  }
  {
    assume B: "\<forall>k. 0 < k \<and> k < 26 \<longrightarrow> pin_level g (pin (inputs s ! k)) = rd k"
    have "\<forall>k. 0 < k \<and> k < 26 \<longrightarrow> \<not> kb_accepts t g k ?s0"
      using B S(1) by (simp add: kb_accepts_def)
    then show "handleButtons t g ?s0 = (?s0, [])"
      using S(2) [OF i] by (intro handleButtons_quiet)
  }
next
  assume A: "length (inputs s) = 26 \<and> i < 26"
  then have len: "length (inputs s) = 26" and i: "i < 26" by simp_all
  let ?s0 = "setup_orig rdo s"
  note S = setup_orig_slot [OF len i, of rdo]
  show "state (inputs ?s0 ! i) = fst (rdo i)" using S(1) by simp
  {
    assume "gate_level r = fst (rdo i)"
    then have "\<not> orig_accepts r i ?s0" using S(1) by (simp add: orig_accepts_def)
    then show "handleInput r i isShift (?s0, out) = (?s0, out)"
      using handleInput_eq [of i ?s0 r isShift out] S(2) i by simp
  }
next
  assume "j < 26"
  then show "states gp_init ! j = 0" by (simp add: gp_init_def)
next
  assume "j < 26" "button_level gpio_now j = 0"
  then show "debounce_button gpio_now time_now j gp_init = gp_init"
    by (simp add: debounce_button_eq gp_accepts_def gp_init_def)
qed

theorem startup_states_witness:
  "\<not> state (inputs kb_b_held ! 1) \<and>
   inputs (fst (handleButtons 5000 0xFFFFFF7F kb_b_held)) ! 1 = inputs kb_b_held ! 1 \<and>
   handleShiftButton 5000 0xFFFFFF7F kb_b_held = (kb_b_held, []) \<and>
   handleButtons 5000 0xFFFFFF7F kb_b_held = (kb_b_held, []) \<and>
   \<not> state (inputs orig_b_held ! 1) \<and>
   handleInput (reads_at 5000 False) 1 False (orig_b_held, []) = (orig_b_held, []) \<and>
   states gp_init ! 0 = 0 \<and>
   debounce_button 0 5000 0 gp_init = gp_init"
proof -
  have a: "length (inputs kb_globals) = 26 \<and> (1::nat) < 26"
    "length (inputs kb_globals_orig) = 26 \<and> (1::nat) < 26"
    by (simp_all add: length_kb_globals length_kb_globals_orig)
  have b: "0 < (1::nat) \<and> pin_level 0xFFFFFF7F (pin (inputs kb_globals ! 1)) = ((1::nat) \<noteq> 1)"
    "pin_level 0xFFFFFF7F (pin (inputs kb_globals ! 0)) = ((0::nat) \<noteq> 1)"
    by code_simp+
  have "\<forall>k\<in>set [1..<26]. pin_level 0xFFFFFF7F (pin (inputs kb_globals ! k)) = (k \<noteq> 1)"
    by code_simp
  then have c: "\<forall>k. 0 < k \<and> k < 26 \<longrightarrow>
      pin_level 0xFFFFFF7F (pin (inputs kb_globals ! k)) = (k \<noteq> 1)"
    by auto
  have d: "gate_level (reads_at 5000 False) = fst ((1::nat) \<noteq> 1, 0::u32)"
    by (simp add: reads_at_def)
  have e: "(0::nat) < 26" "button_level 0 0 = 0" by code_simp+
  note T = startup_states [where s = kb_globals and i = 1 and rd = "\<lambda>i. i \<noteq> 1"
      and g = "0xFFFFFF7F" and t = 5000, THEN conjunct1, rule_format, OF a(1)]
  note U = startup_states [where s = kb_globals_orig and i = 1
      and rdo = "\<lambda>i. (i \<noteq> 1, 0)" and r = "reads_at 5000 False" and isShift = False
      and out = "[]", THEN conjunct2, THEN conjunct1, rule_format, OF a(2)]
  note V = startup_states [where j = 0 and gpio_now = 0 and time_now = 5000,
      THEN conjunct2, THEN conjunct2, rule_format, OF e(1)]
  have "\<not> state (inputs kb_b_held ! 1)"
    "inputs (fst (handleButtons 5000 0xFFFFFF7F kb_b_held)) ! 1 = inputs kb_b_held ! 1"
    "handleShiftButton 5000 0xFFFFFF7F kb_b_held = (kb_b_held, [])"
    "handleButtons 5000 0xFFFFFF7F kb_b_held = (kb_b_held, [])"
    using T b c unfolding kb_b_held_def by blast+
  moreover have "\<not> state (inputs orig_b_held ! 1)"
    "handleInput (reads_at 5000 False) 1 False (orig_b_held, []) = (orig_b_held, [])"
    using U d unfolding orig_b_held_def by simp_all
  moreover have "states gp_init ! 0 = 0" "debounce_button 0 5000 0 gp_init = gp_init"
    using V e(2) by blast+
  ultimately show ?thesis by blast
qed

text \<open>Where the claim as stated fails: the gamepad sketch starts button 0 at the constant
  state 0 although its pin reads pressed, and the first pass (9 ms after start) confirms a
  transition for it and sends a report.\<close>

theorem startup_states_counterexample:
  "states gp_init ! 0 = 0 \<and>
   button_level (NOT (gpio_all env_press0) AND PICO_GPIO_MASK) 0 = 1 \<and>
   loop_gp env_press0 gp_init = Some (Ticked after_press0 True [(1, 1)]) \<and>
   states after_press0 ! 0 = 1"
  by code_simp

subsection \<open>Sync monitor, threshold check\<close>

text \<open>
  C8. Evaluating the threshold-check monitor from its initial globals on measurements
  of 60 microseconds each (mean above the threshold 55): after 100 calls the
  accumulator holds 100 samples and is not reset, no decision has been taken and
  nothing written; the decision, the reset and the two writes come with the 101st call.
\<close>

theorem freqBlock_cycle_length:
  "freqBlock_run (replicate 100 60) sync_init =
     (\<lparr>enableState = False, prevEnState = False, periodSum = 6000, sCounter = 100\<rparr>, []) \<and>
   freqBlock_run (replicate 101 60) sync_init =
     (\<lparr>enableState = True, prevEnState = True, periodSum = 0, sCounter = 0\<rparr>,
      [(disablePin, False), (ledPin, True)])"
  by code_simp

text \<open>The cycle of the threshold check in general: starting from cleared accumulators,
  up to 100 calls only accumulate, whatever the measured values.\<close>

lemma freqBlock_orig_accumulates:
  assumes "sCounter s = of_nat c" "c < 100"
  shows "freqBlock_orig p s = (s\<lparr>periodSum := periodSum s + p, sCounter := of_nat (Suc c)\<rparr>, [])"
proof -
  have "sint (of_nat (Suc c) :: u32) = signed_take_bit 31 (int (Suc c))"
    by (simp add: signed_of_nat del: of_nat_Suc)
  also have "\<dots> = int (Suc c)"
    using assms(2) by (intro signed_take_bit_int_eq_self) simp_all
  finally have "sint (of_nat (Suc c) :: u32) = int (Suc c)" .
  then have "\<not> samples <s (of_nat (Suc c) :: u32)"
    using assms(2) by (simp add: word_sless_alt samples_def del: of_nat_Suc)
  moreover have "sCounter s + 1 = of_nat (Suc c)" using assms(1) by simp
  ultimately show ?thesis by (simp add: freqBlock_orig_def Let_def del: of_nat_Suc)
qed

lemma freqBlock_run_accumulates:
  assumes "sCounter s = of_nat c" "c + length ps \<le> 100"
  shows "freqBlock_run ps s =
           (s\<lparr>periodSum := periodSum s + sum_list ps, sCounter := of_nat (c + length ps)\<rparr>, [])"
  using assms
proof (induction ps arbitrary: s c)
  case Nil
  then show ?case by simp
next
  case (Cons p ps)
  let ?s1 = "s\<lparr>periodSum := periodSum s + p, sCounter := of_nat (Suc c)\<rparr>"
  have c: "c < 100" using Cons.prems(2) by simp
  have step: "freqBlock_orig p s = (?s1, [])"
    using Cons.prems(1) c by (rule freqBlock_orig_accumulates)
  have "freqBlock_run ps ?s1 =
      (?s1\<lparr>periodSum := periodSum ?s1 + sum_list ps, sCounter := of_nat (Suc c + length ps)\<rparr>, [])"
    using Cons.prems(2) by (intro Cons.IH) simp_all
  then show ?case using step by (simp add: add.assoc del: of_nat_Suc)
qed

text \<open>The decision falls at the 101st call: the mean is the sum over 101.\<close>

lemma freqBlock_orig_decides:
  assumes "sCounter s = 100"
  shows "fst (freqBlock_orig p s) =
           s\<lparr>periodSum := 0, sCounter := 0,
             enableState := DEFAULT_FREQ <s int_div (periodSum s + p) 101,
             prevEnState := DEFAULT_FREQ <s int_div (periodSum s + p) 101\<rparr>"
    and "snd (freqBlock_orig p s) =
           (if (DEFAULT_FREQ <s int_div (periodSum s + p) 101) \<noteq> prevEnState s
            then [(disablePin, \<not> DEFAULT_FREQ <s int_div (periodSum s + p) 101),
                  (ledPin, DEFAULT_FREQ <s int_div (periodSum s + p) 101)]
            else [])"
  using assms by (cases s; simp add: freqBlock_orig_def Let_def samples_def)+

subsection \<open>Sync monitor, range check\<close>

lemma ilog2_le:
  assumes "0 < x"
  shows "2 powi (ilog2 x) \<le> x"
proof (cases "1 \<le> x")
  case True
  then have n: "0 < nat \<lfloor>x\<rfloor>" by simp
  have "2 ^ (floorlog 2 (nat \<lfloor>x\<rfloor>) - 1) \<le> nat \<lfloor>x\<rfloor>"
    using floorlog_bounds [of "nat \<lfloor>x\<rfloor>" 2] n by simp
  then have "(2::rat) ^ (floorlog 2 (nat \<lfloor>x\<rfloor>) - 1) \<le> of_nat (nat \<lfloor>x\<rfloor>)"
    by (metis of_nat_le_iff of_nat_numeral of_nat_power)
  also have "\<dots> \<le> x" using True by simp
  finally have "(2::rat) ^ (floorlog 2 (nat \<lfloor>x\<rfloor>) - 1) \<le> x" .
  moreover have "0 < floorlog 2 (nat \<lfloor>x\<rfloor>)" using n by (simp add: floorlog_def)
  ultimately show ?thesis using True
    by (simp add: ilog2_def power_int_def of_nat_diff nat_diff_distrib)
next
  case False
  let ?m = "nat (\<lceil>1 / x\<rceil> - 1)"
  let ?k = "floorlog 2 ?m"
  have y: "1 < 1 / x" using False assms by simp
  then have c: "2 \<le> \<lceil>1 / x\<rceil>" by linarith
  then have m: "0 < ?m" by simp
  have "?m < 2 ^ ?k" using floorlog_bounds [of ?m 2] m by simp
  then have "?m + 1 \<le> 2 ^ ?k" by (simp only: Suc_eq_plus1 [symmetric] Suc_le_eq)
  then have "(of_nat (?m + 1) :: rat) \<le> of_nat (2 ^ ?k)" by (simp only: of_nat_le_iff)
  moreover have "(of_nat (?m + 1) :: rat) = of_int \<lceil>1 / x\<rceil>"
  proof -
    have "0 \<le> \<lceil>1 / x\<rceil> - 1" using c by linarith
    then have "int ?m = \<lceil>1 / x\<rceil> - 1" by (rule nat_0_le)
    then have "int ?m + 1 = \<lceil>1 / x\<rceil>" by linarith
    then have "int (?m + 1) = \<lceil>1 / x\<rceil>" by (simp only: of_nat_add of_nat_1)
    then have "(of_int (int (?m + 1)) :: rat) = of_int \<lceil>1 / x\<rceil>" by (simp only:)
    then show ?thesis by (simp only: of_int_of_nat_eq)
  qed
  ultimately have "1 / x \<le> 2 ^ ?k"
    by (smt (verit) le_of_int_ceiling of_nat_numeral of_nat_power order_trans)
  then have "1 / 2 ^ ?k \<le> x" using assms
    by (metis divide_le_eq mult.commute zero_less_numeral zero_less_power)
  then show ?thesis using False
    by (simp add: ilog2_def power_int_minus inverse_eq_divide)
qed

lemma round_half_even_err: "\<bar>of_int (round_half_even q) - q\<bar> \<le> 1 / 2"
proof -
  define d where "d = q - of_int \<lfloor>q\<rfloor>"
  have d: "0 \<le> d" "d < 1" unfolding d_def by linarith+
  have q: "q = of_int \<lfloor>q\<rfloor> + d" by (simp add: d_def)
  consider "round_half_even q = \<lfloor>q\<rfloor>" "d \<le> 1 / 2"
    | "round_half_even q = \<lfloor>q\<rfloor> + 1" "1 / 2 \<le> d"
    unfolding round_half_even_def Let_def d_def [symmetric]
    by (cases "d < 1 / 2"; cases "1 / 2 < d"; cases "even \<lfloor>q\<rfloor>") simp_all
  then show ?thesis
  proof cases
    case 1
    then have "of_int (round_half_even q) - q = - d" using q by simp
    then show ?thesis using d 1(2) by simp
  next
    case 2
    then have "of_int (round_half_even q) - q = 1 - d" using q by simp
    then show ?thesis using d 2(2) by simp
  qed
qed

lemma round_to_err:
  assumes "0 < x"
  shows "\<bar>round_to p x - x\<bar> \<le> x / 2 ^ p"
proof -
  define u :: rat where "u = 2 powi (ilog2 x - int p + 1)"
  have u: "0 < u" by (simp add: u_def)
  have "\<bar>round_to p x - x\<bar> = \<bar>of_int (round_half_even (x / u)) * u - x\<bar>"
    using assms by (simp add: round_to_def u_def Let_def)
  also have "\<dots> = \<bar>of_int (round_half_even (x / u)) - x / u\<bar> * u"
  proof -
    have "of_int (round_half_even (x / u)) * u - x = (of_int (round_half_even (x / u)) - x / u) * u"
      using u by (simp add: field_simps)
    then show ?thesis using u by (simp add: abs_mult)
  qed
  also have "\<dots> \<le> (1 / 2) * u"
    using round_half_even_err [of "x / u"] u by (intro mult_right_mono) simp_all
  also have "(1 / 2) * u = 2 powi (ilog2 x) / 2 ^ p"
  proof -
    have "u = 2 powi (ilog2 x) * 2 powi (- int p) * 2 powi 1"
      unfolding u_def by (simp add: power_int_add power_int_diff power_int_minus field_simps)
    then show ?thesis by (simp add: power_int_minus field_simps)
  qed
  also have "\<dots> \<le> x / 2 ^ p"
    using ilog2_le [OF assms] by (simp add: divide_right_mono)
  finally show ?thesis .
qed

lemma round_to_pos:
  assumes "0 < x" "0 < p"
  shows "0 < round_to p x"
proof -
  have "(2::rat) ^ p \<ge> 2" using assms(2) by (metis One_nat_def Suc_leI power_increasing power_one_right one_le_numeral)
  then have "x / 2 ^ p \<le> x / 2" using assms(1) by (intro divide_left_mono) simp_all
  then have "\<bar>round_to p x - x\<bar> \<le> x / 2" using round_to_err [OF assms(1), of p] by linarith
  then show ?thesis using assms(1) by linarith
qed

lemma frequency_of_bounds:
  assumes "0 < totalDuration"
  shows "(1 - 1 / 2 ^ 23) * (100000 / of_nat totalDuration) \<le> frequency_of totalDuration"
    and "frequency_of totalDuration \<le> (1 + 1 / 2 ^ 23) * (100000 / of_nat totalDuration)"
proof -
  define q :: rat where "q = 100000 / of_nat totalDuration"
  define d where "d = round_to 53 q"
  have q: "0 < q" using assms by (simp add: q_def)
  have d: "0 < d" unfolding d_def using q by (intro round_to_pos) simp_all
  have e1: "\<bar>d - q\<bar> \<le> q / 2 ^ 53" unfolding d_def by (rule round_to_err [OF q])
  have e2: "\<bar>frequency_of totalDuration - d\<bar> \<le> d / 2 ^ 24"
    unfolding frequency_of_def d_def q_def by (rule round_to_err [OF d [unfolded d_def q_def]])
  have "d \<le> q + q / 2 ^ 53" "q - q / 2 ^ 53 \<le> d" using e1 by linarith+
  moreover have "frequency_of totalDuration \<le> d + d / 2 ^ 24" "d - d / 2 ^ 24 \<le> frequency_of totalDuration"
    using e2 by linarith+
  ultimately have "frequency_of totalDuration \<le> (q + q / 2 ^ 53) + (q + q / 2 ^ 53) / 2 ^ 24"
    "(q - q / 2 ^ 53) - (q - q / 2 ^ 53) / 2 ^ 24 \<le> frequency_of totalDuration"
    by (simp_all add: field_simps)
  then show "(1 - 1 / 2 ^ 23) * (100000 / of_nat totalDuration) \<le> frequency_of totalDuration"
    and "frequency_of totalDuration \<le> (1 + 1 / 2 ^ 23) * (100000 / of_nat totalDuration)"
    using q unfolding q_def [symmetric] by (simp_all add: field_simps)
qed

lemma frequency_of_in_band:
  assumes "0 < totalDuration"
  shows "12 \<le> frequency_of totalDuration \<and> frequency_of totalDuration \<le> 18 \<longleftrightarrow>
         12 \<le> 100000 / (of_nat totalDuration :: rat) \<and> 100000 / (of_nat totalDuration :: rat) \<le> 18"
proof -
  define q :: rat where "q = 100000 / of_nat totalDuration"
  define f where "f = frequency_of totalDuration"
  have lo: "(1 - 1 / 2 ^ 23) * q \<le> f" and hi: "f \<le> (1 + 1 / 2 ^ 23) * q"
    unfolding q_def f_def by (rule frequency_of_bounds [OF assms])+
  have T: "0 < (of_nat totalDuration :: rat)" using assms by simp
  have c1: "(0::rat) \<le> 1 - 1 / 2 ^ 23" "(0::rat) \<le> 1 + 1 / 2 ^ 23" by simp_all
  consider "totalDuration \<le> 5555" | "5556 \<le> totalDuration" "totalDuration \<le> 8333"
    | "8334 \<le> totalDuration" by linarith
  then have "12 \<le> f \<and> f \<le> 18 \<longleftrightarrow> 12 \<le> q \<and> q \<le> 18"
  proof cases
    case 1
    then have "(of_nat totalDuration :: rat) \<le> of_nat 5555" by (simp only: of_nat_le_iff)
    then have "(of_nat totalDuration :: rat) \<le> 5555" by simp
    then have q: "100000 / 5555 \<le> q" unfolding q_def using T by (intro divide_left_mono) simp_all
    have "(18::rat) < (1 - 1 / 2 ^ 23) * (100000 / 5555)" by simp
    also have "\<dots> \<le> (1 - 1 / 2 ^ 23) * q" using q c1(1) by (rule mult_left_mono)
    also have "\<dots> \<le> f" by (rule lo)
    finally have "18 < f" .
    moreover have "18 < q" using q by simp
    ultimately show ?thesis by simp
  next
    case 2
    then have "(of_nat 5556 :: rat) \<le> of_nat totalDuration" "(of_nat totalDuration :: rat) \<le> of_nat 8333"
      by (simp_all only: of_nat_le_iff)
    then have "(5556 :: rat) \<le> of_nat totalDuration" "(of_nat totalDuration :: rat) \<le> 8333"
      by simp_all
    then have q: "100000 / 8333 \<le> q" "q \<le> 100000 / 5556"
      unfolding q_def using T by (intro divide_left_mono; simp)+
    have "(12::rat) \<le> (1 - 1 / 2 ^ 23) * (100000 / 8333)" by simp
    also have "\<dots> \<le> (1 - 1 / 2 ^ 23) * q" using q(1) c1(1) by (rule mult_left_mono)
    also have "\<dots> \<le> f" by (rule lo)
    finally have a: "12 \<le> f" .
    have "f \<le> (1 + 1 / 2 ^ 23) * q" by (rule hi)
    also have "\<dots> \<le> (1 + 1 / 2 ^ 23) * (100000 / 5556)" using q(2) c1(2) by (rule mult_left_mono)
    also have "\<dots> \<le> 18" by simp
    finally have b: "f \<le> 18" .
    have "12 \<le> q" "q \<le> 18" using q by simp_all
    with a b show ?thesis by simp
  next
    case 3
    then have "(of_nat 8334 :: rat) \<le> of_nat totalDuration" by (simp only: of_nat_le_iff)
    then have "(8334 :: rat) \<le> of_nat totalDuration" by simp
    then have q: "q \<le> 100000 / 8334" unfolding q_def using T by (intro divide_left_mono) simp_all
    have "f \<le> (1 + 1 / 2 ^ 23) * q" by (rule hi)
    also have "\<dots> \<le> (1 + 1 / 2 ^ 23) * (100000 / 8334)" using q c1(2) by (rule mult_left_mono)
    also have "\<dots> < 12" by simp
    finally have "f < 12" .
    moreover have "q < 12" using q by simp
    ultimately show ?thesis by simp
  qed
  then show ?thesis unfolding q_def f_def .
qed

lemma pulse_loop_all:
  "(\<forall>j<n. pulseIn (k + j) \<noteq> 0) \<Longrightarrow>
     pulse_loop pulseIn n k t = (t + (\<Sum>j<n. pulseIn (k + j)), False, k + n)"
proof (induction n arbitrary: k t)
  case 0
  then show ?case by simp
next
  case (Suc n)
  have k: "pulseIn k \<noteq> 0" using Suc.prems by (metis add.right_neutral zero_less_Suc)
  have "\<forall>j<n. pulseIn (Suc k + j) \<noteq> 0" using Suc.prems by (metis Suc_less_eq add_Suc_shift)
  then have "pulse_loop pulseIn n (Suc k) (t + pulseIn k) =
      (t + pulseIn k + (\<Sum>j<n. pulseIn (Suc k + j)), False, Suc k + n)"
    by (rule Suc.IH)
  then show ?case using k
    by (simp del: sum.lessThan_Suc add: sum.lessThan_Suc_shift add.assoc)
qed

lemma pulse_loop_zero:
  "m < n \<Longrightarrow> pulseIn (k + m) = 0 \<Longrightarrow> (\<forall>j<m. pulseIn (k + j) \<noteq> 0) \<Longrightarrow>
     \<exists>t'. pulse_loop pulseIn n k t = (t', True, k + m + 1)"
proof (induction m arbitrary: n k t)
  case 0
  then obtain n' where "n = Suc n'" by (cases n) auto
  with 0 show ?case by simp
next
  case (Suc m)
  then obtain n' where n: "n = Suc n'" "m < n'" by (cases n) auto
  have k: "pulseIn k \<noteq> 0" using Suc.prems(3) by (metis add.right_neutral zero_less_Suc)
  have "pulseIn (Suc k + m) = 0" using Suc.prems(2) by simp
  moreover have "\<forall>j<m. pulseIn (Suc k + j) \<noteq> 0"
    using Suc.prems(3) by (metis Suc_less_eq add_Suc_shift)
  ultimately have "\<exists>t'. pulse_loop pulseIn n' (Suc k) (t + pulseIn k) = (t', True, Suc k + m + 1)"
    using n(2) by (intro Suc.IH)
  then show ?case using k n by simp
qed

lemma first_zero:
  fixes pulseIn :: "nat \<Rightarrow> u32"
  assumes "\<exists>k<n. pulseIn k = 0"
  shows "\<exists>m<n. pulseIn m = 0 \<and> (\<forall>j<m. pulseIn j \<noteq> 0)"
proof -
  from assms obtain k where k: "k < n" "pulseIn k = 0" by blast
  define m where "m = (LEAST i. pulseIn i = 0)"
  have 1: "pulseIn m = 0" unfolding m_def using k(2) by (rule LeastI)
  have 2: "m \<le> k" unfolding m_def using k(2) by (rule Least_le)
  have 3: "pulseIn j \<noteq> 0" if "j < m" for j
    using that not_less_Least [of j "\<lambda>i. pulseIn i = 0"] unfolding m_def by blast
  from 2 k(1) have "m < n" by simp
  with 1 3 show ?thesis by blast
qed

lemma unat_sum_no_wrap:
  "(\<Sum>j<(n::nat). unat (w j :: u32)) < 2 ^ 32 \<Longrightarrow> unat (\<Sum>j<n. w j) = (\<Sum>j<n. unat (w j))"
proof (induction n)
  case 0
  then show ?case by simp
next
  case (Suc n)
  then have "(\<Sum>j<n. unat (w j)) < 2 ^ 32" by simp
  then have IH: "unat (\<Sum>j<n. w j) = (\<Sum>j<n. unat (w j))" by (rule Suc.IH)
  have "unat (sum w {..<n}) + unat (w n) < 2 ^ LENGTH(32)" using Suc.prems IH by simp
  then have "unat (sum w {..<n} + w n) = unat (sum w {..<n}) + unat (w n)"
    by (simp only: unat_add_lem [THEN iffD1])
  then show ?case using IH by simp
qed

lemma freqBlock_no_pulse:
  assumes "\<exists>k<PULSE_COUNT. pulseIn k = 0"
  shows "freqBlock pulseIn = [(ledPin, False), (disablePin, True)]"
    and "\<exists>m<PULSE_COUNT. pulseIn m = 0 \<and> (\<forall>j<m. pulseIn j \<noteq> 0) \<and>
           snd (snd (pulse_loop pulseIn PULSE_COUNT 0 0)) = m + 1"
proof -
  from first_zero [OF assms] obtain m where m: "m < PULSE_COUNT" "pulseIn m = 0"
    "\<forall>j<m. pulseIn j \<noteq> 0" by blast
  from pulse_loop_zero [of m PULSE_COUNT pulseIn 0 0] m
  obtain t' where L: "pulse_loop pulseIn PULSE_COUNT 0 0 = (t', True, m + 1)" by auto
  then show "freqBlock pulseIn = [(ledPin, False), (disablePin, True)]"
    by (simp add: freqBlock_def)
  from L m show "\<exists>m<PULSE_COUNT. pulseIn m = 0 \<and> (\<forall>j<m. pulseIn j \<noteq> 0) \<and>
           snd (snd (pulse_loop pulseIn PULSE_COUNT 0 0)) = m + 1"
    by (intro exI [of _ m]) simp
qed

lemma freqBlock_pulses:
  assumes nz: "\<forall>k<PULSE_COUNT. pulseIn k \<noteq> 0"
    and fit: "(\<Sum>k<PULSE_COUNT. unat (pulseIn k)) < 2 ^ 32"
  shows "freqBlock pulseIn =
       [(ledPin, 12 \<le> spec_average_khz pulseIn \<and> spec_average_khz pulseIn \<le> 18),
        (disablePin, \<not> (12 \<le> spec_average_khz pulseIn \<and> spec_average_khz pulseIn \<le> 18))]"
proof -
  define S where "S = (\<Sum>k<PULSE_COUNT. unat (pulseIn k))"
  define total where "total = (\<Sum>k<PULSE_COUNT. pulseIn k)"
  have L: "pulse_loop pulseIn PULSE_COUNT 0 0 = (total, False, PULSE_COUNT)"
    using pulse_loop_all [of PULSE_COUNT pulseIn 0 0] nz by (simp add: total_def)
  have u: "unat total = S" unfolding total_def S_def using fit by (rule unat_sum_no_wrap)
  have "pulseIn 0 \<noteq> 0" using nz by (simp add: PULSE_COUNT_def)
  then have "0 < unat (pulseIn 0)" by (simp add: unat_gt_0)
  moreover have "unat (pulseIn 0) \<le> S"
    unfolding S_def by (rule member_le_sum) (simp_all add: PULSE_COUNT_def)
  ultimately have S: "0 < S" by linarith
  then have tz: "total \<noteq> 0" using u by (metis unat_0 less_numeral_extra(3))
  have khz: "spec_average_khz pulseIn = 100000 / of_nat S"
    by (simp add: spec_average_khz_def S_def PULSE_COUNT_def)
  have "in_range (frequency total) \<longleftrightarrow>
        12 \<le> spec_average_khz pulseIn \<and> spec_average_khz pulseIn \<le> 18"
    using tz u frequency_of_in_band [OF S] by (simp add: frequency_def khz)
  then show ?thesis by (simp add: freqBlock_def L)
qed

text \<open>
  C7. In one call of \<open>freqBlock()\<close> of the range-check monitor: if one of the (at most
  \<open>PULSE_COUNT\<close>) measurements reads zero, the loop stops right after the first such
  reading and the LED is driven low and the disable pin high (amplifier off); if all
  \<open>PULSE_COUNT\<close> measurements are nonzero (and their sum fits the 32-bit accumulator, as
  it does for pulses bounded by the one-second timeout of \<open>pulseIn\<close>), the LED is driven
  high and the disable pin low exactly when the frequency of the averaged duration lies
  in the inclusive band from 12 to 18 kHz, and the other way round outside it.
\<close>

theorem sync_range_check:
  "((\<exists>k<PULSE_COUNT. pulseIn k = 0) \<longrightarrow>
      freqBlock pulseIn = [(ledPin, False), (disablePin, True)] \<and>
      (\<exists>m<PULSE_COUNT. pulseIn m = 0 \<and> (\<forall>j<m. pulseIn j \<noteq> 0) \<and>
           snd (snd (pulse_loop pulseIn PULSE_COUNT 0 0)) = m + 1)) \<and>
   ((\<forall>k<PULSE_COUNT. pulseIn k \<noteq> 0) \<and> (\<Sum>k<PULSE_COUNT. unat (pulseIn k)) < 2 ^ 32 \<longrightarrow>
      freqBlock pulseIn =
       [(ledPin, 12 \<le> spec_average_khz pulseIn \<and> spec_average_khz pulseIn \<le> 18),
        (disablePin, \<not> (12 \<le> spec_average_khz pulseIn \<and> spec_average_khz pulseIn \<le> 18))])"
  using freqBlock_no_pulse [of pulseIn] freqBlock_pulses [of pulseIn] by blast

theorem sync_range_check_witness:
  "freqBlock (\<lambda>k. if k = 3 then 0 else 64) = [(ledPin, False), (disablePin, True)] \<and>
   freqBlock (\<lambda>k. 64) = [(ledPin, True), (disablePin, False)] \<and>
   freqBlock (\<lambda>k. 100) = [(ledPin, False), (disablePin, True)]"
proof -
  have a: "\<exists>k<PULSE_COUNT. (if k = 3 then 0 else 64 :: u32) = 0"
    by (intro exI [of _ 3]) (simp add: PULSE_COUNT_def)
  have b: "(\<forall>k<PULSE_COUNT. (64::u32) \<noteq> 0) \<and> (\<Sum>k<PULSE_COUNT. unat (64::u32)) < 2 ^ 32"
    "(\<forall>k<PULSE_COUNT. (100::u32) \<noteq> 0) \<and> (\<Sum>k<PULSE_COUNT. unat (100::u32)) < 2 ^ 32"
    by (simp_all add: PULSE_COUNT_def)
  have c: "spec_average_khz (\<lambda>k. 64) = 125 / 8" "spec_average_khz (\<lambda>k. 100) = 10"
    by (simp_all add: spec_average_khz_def PULSE_COUNT_def)
  from sync_range_check [of "\<lambda>k. if k = 3 then 0 else 64"] a
  have "freqBlock (\<lambda>k. if k = 3 then 0 else 64) = [(ledPin, False), (disablePin, True)]"
    by blast
  moreover from sync_range_check [of "\<lambda>k. 64"] b(1)
  have "freqBlock (\<lambda>k. 64) = [(ledPin, True), (disablePin, False)]"
    unfolding c by simp
  moreover from sync_range_check [of "\<lambda>k. 100"] b(2)
  have "freqBlock (\<lambda>k. 100) = [(ledPin, False), (disablePin, True)]"
    unfolding c by simp
  ultimately show ?thesis by blast
qed

end
